theory Spec2Isabelle
  imports Main "HOL-Library.Word"
begin

section \<open>JavaScript strings\<close>

text \<open>
  A JavaScript string is a sequence of UTF-16 code units. The regular expression of
  the parser has no \<open>u\<close> flag, so it works on code units, as \<open>slice\<close>, \<open>length\<close> and
  \<open>trim\<close> do.
\<close>

type_synonym jschar = "16 word"
type_synonym jsstring = "jschar list"

text \<open>ASCII literals, written as HOL strings.\<close>

definition js :: "string \<Rightarrow> jsstring" where
  "js s = map of_char s"

definition lbracket :: jschar where
  "lbracket = 0x5B"

definition rbracket :: jschar where
  "rbracket = 0x5D"

text \<open>The code units that \<open>.\<close> does not match: LF, CR, LS and PS.\<close>

definition isLineTerminator :: "jschar \<Rightarrow> bool" where
  "isLineTerminator c = (c = 0x000A \<or> c = 0x000D \<or> c = 0x2028 \<or> c = 0x2029)"

text \<open>
  \<open>s.slice(a, b)\<close> and \<open>s.slice(a)\<close> for indices that are not negative: an index past
  the end is clamped to the length and an end before the start gives the empty string.
\<close>

definition slice :: "jsstring \<Rightarrow> nat \<Rightarrow> nat \<Rightarrow> jsstring" where
  "slice s a b = take (b - a) (drop a s)"

definition slice_from :: "jsstring \<Rightarrow> nat \<Rightarrow> jsstring" where
  "slice_from s a = drop a s"

section \<open>The regular expression \<open>/\[(.+?)\]/g\<close>\<close>

text \<open>
  \<open>lazy_dots\<close> is the lazy quantifier after its first, mandatory character: at every
  position it first tries the continuation \<open>\]\<close>, and only when that fails lets \<open>.\<close>
  take one more code unit. It returns the further code units that the group captures.
\<close>

fun lazy_dots :: "jsstring \<Rightarrow> jsstring option" where
  "lazy_dots [] = None"
| "lazy_dots (c # cs) =
     (if c = rbracket then Some []
      else if isLineTerminator c then None
      else map_option ((#) c) (lazy_dots cs))"

text \<open>The pattern anchored at the head of the input; the result is capture group 1.\<close>

fun match_here :: "jsstring \<Rightarrow> jsstring option" where
  "match_here (c # d # cs) =
     (if c = lbracket \<and> \<not> isLineTerminator d then map_option ((#) d) (lazy_dots cs)
      else None)"
| "match_here _ = None"

text \<open>
  The result of a successful \<open>regex.exec(str)\<close>: \<open>m.index\<close>, \<open>m[1]\<close> and the value the
  call leaves in \<open>regex.lastIndex\<close>.
\<close>

record regex_result =
  index :: nat
  group1 :: jsstring
  regex_lastIndex :: nat

text \<open>
  \<open>regex.exec(str)\<close> for a global expression whose \<open>lastIndex\<close> is \<open>i\<close>: the leftmost
  match that starts at \<open>i\<close> or later, \<open>None\<close> for \<open>null\<close>.
\<close>

function exec :: "jsstring \<Rightarrow> nat \<Rightarrow> regex_result option" where
  "exec str i =
     (if length str < i then None
      else case match_here (drop i str) of
             Some g \<Rightarrow> Some \<lparr>index = i, group1 = g, regex_lastIndex = i + length g + 2\<rparr>
           | None \<Rightarrow> exec str (Suc i))"
  by pat_completeness auto
termination
  by (relation "measure (\<lambda>(str, i). Suc (length str) - i)") auto

declare exec.simps [simp del]

lemma lazy_dots_length:
  "lazy_dots s = Some g \<Longrightarrow> length g < length s"
proof (induction s arbitrary: g)
  case Nil
  then show ?case by simp
next
  case (Cons c cs)
  then show ?case by (auto split: if_splits)
qed

lemma match_here_length:
  "match_here s = Some g \<Longrightarrow> g \<noteq> [] \<and> length g + 2 \<le> length s"
proof (cases s rule: match_here.cases)
  case (1 c d cs)
  assume "match_here s = Some g"
  with 1 obtain h where "lazy_dots cs = Some h" "g = d # h"
    by (auto split: if_splits)
  with 1 show ?thesis
    using lazy_dots_length [of cs h] by simp
qed simp_all

lemma exec_bounds:
  "exec str i = Some m \<Longrightarrow>
     i \<le> index m \<and> index m + 2 < regex_lastIndex m \<and> regex_lastIndex m \<le> length str"
proof (induction str i rule: exec.induct)
  case (1 str i)
  show ?case
  proof (cases "match_here (drop i str)")
    case None
    with "1.prems" have le: "\<not> length str < i" and rec: "exec str (Suc i) = Some m"
      by (auto simp: exec.simps [of str i] split: if_splits)
    from "1.IH" [OF le None rec] show ?thesis by simp
  next
    case (Some g)
    with "1.prems" have le: "\<not> length str < i"
      and m: "m = \<lparr>index = i, group1 = g, regex_lastIndex = i + length g + 2\<rparr>"
      by (auto simp: exec.simps [of str i] split: if_splits)
    from match_here_length [OF Some] le m show ?thesis by auto
  qed
qed

section \<open>The transcript parser\<close>

text \<open>
  A token is a string or an object \<open>{ blank: n }\<close>.
\<close>

datatype token = Lit jsstring | Blank nat

text \<open>
  The \<open>while\<close> loop of \<open>addQuestion\<close> and \<open>updateQuestion\<close> (the two copies are
  identical). The state is \<open>(lastIndex, tokens, blanks)\<close>. The expression is created
  by the call, so its own \<open>lastIndex\<close> starts at 0 and, while the loop runs, equals the
  local variable \<open>lastIndex\<close>.
\<close>

function parse_loop ::
  "jsstring \<Rightarrow> nat \<times> token list \<times> jsstring list \<Rightarrow> nat \<times> token list \<times> jsstring list"
where
  "parse_loop transcript (lastIndex, tokens, blanks) =
     (case exec transcript lastIndex of
        None \<Rightarrow> (lastIndex, tokens, blanks)
      | Some m \<Rightarrow>
          parse_loop transcript
            (regex_lastIndex m,
             (if index m > lastIndex
              then tokens @ [Lit (slice transcript lastIndex (index m))]
              else tokens) @ [Blank (length blanks)],
             blanks @ [group1 m]))"
  by pat_completeness auto
termination
proof (relation "measure (\<lambda>(transcript, lastIndex, _). length transcript - lastIndex)")
  show "wf (measure (\<lambda>(transcript, lastIndex, _). length transcript - lastIndex))"
    by simp
next
  fix transcript :: jsstring and lastIndex :: nat and tokens :: "token list"
    and blanks :: "jsstring list" and m :: regex_result
  assume "exec transcript lastIndex = Some m"
  from exec_bounds [OF this]
  show "((transcript, regex_lastIndex m,
            (if lastIndex < index m
             then tokens @ [Lit (slice transcript lastIndex (index m))]
             else tokens) @ [Blank (length blanks)],
            blanks @ [group1 m]),
         (transcript, lastIndex, tokens, blanks))
        \<in> measure (\<lambda>(transcript, lastIndex, _). length transcript - lastIndex)"
    by (simp, arith)
qed

declare parse_loop.simps [simp del]

text \<open>The loop, then the trailing literal text.\<close>

definition parseTranscript :: "jsstring \<Rightarrow> token list \<times> jsstring list" where
  "parseTranscript transcript =
     (case parse_loop transcript (0, [], []) of
        (lastIndex, tokens, blanks) \<Rightarrow>
          (if lastIndex < length transcript
           then tokens @ [Lit (slice_from transcript lastIndex)]
           else tokens,
           blanks))"

text \<open>
  The editable transcript that \<open>AdminPanel\<close> derives from a question: a string token
  as it is, a blank token as its answer in brackets. An index outside \<open>blanks\<close> reads
  \<open>undefined\<close>, which the template literal prints.
\<close>

definition tokenText :: "jsstring list \<Rightarrow> token \<Rightarrow> jsstring" where
  "tokenText blanks t =
     (case t of
        Lit s \<Rightarrow> s
      | Blank n \<Rightarrow>
          [lbracket] @ (if n < length blanks then blanks ! n else js ''undefined'') @ [rbracket])"

definition editableTranscript :: "token list \<Rightarrow> jsstring list \<Rightarrow> jsstring" where
  "editableTranscript tokens blanks = concat (map (tokenText blanks) tokens)"

section \<open>Questions\<close>

text \<open>
  A question as \<open>addQuestion\<close> builds it and as the sample data has it. \<open>audioUrl\<close>
  and \<open>timeLimitSec\<close> are whatever the caller passed, \<open>undefined\<close> (\<open>None\<close>) included;
  the time limit is a whole number of seconds.
\<close>

record question =
  id_q :: jsstring
  title :: jsstring
  audioUrl :: "jsstring option"
  timeLimitSec :: "int option"
  tokens :: "token list"
  blanks :: "jsstring list"

definition SAMPLE_QUESTIONS :: "question list" where
  "SAMPLE_QUESTIONS =
     [\<lparr>id_q = js ''q1'',
       title = js ''Urban parks audio clip'',
       audioUrl = Some (js ''https://www.soundhelix.com/examples/mp3/SoundHelix-Song-1.mp3''),
       timeLimitSec = Some 90,
       tokens =
         [Lit (js ''City parks provide vital ''), Blank 0,
          Lit (js '' for residents, offering spaces for ''), Blank 1,
          Lit (js '', relaxation, and community events.'')],
       blanks = [js ''amenities'', js ''exercise'']\<rparr>]"

datatype js_error = SyntaxError | TypeError

text \<open>
  The initial value of the \<open>questions\<close> state: \<open>saved\<close> is what
  \<open>localStorage.getItem("fib-questions")\<close> returned (\<open>None\<close> for \<open>null\<close>). \<open>JSON.parse\<close> is
  a parameter: it returns the stored collection or throws a \<open>SyntaxError\<close>, and nothing
  around the call catches it.
\<close>

definition initialQuestions ::
  "(jsstring \<Rightarrow> js_error + question list) \<Rightarrow> jsstring option \<Rightarrow> js_error + question list"
where
  "initialQuestions JSON_parse saved =
     (case saved of
        None \<Rightarrow> Inr SAMPLE_QUESTIONS
      | Some s \<Rightarrow> if s = [] then Inr SAMPLE_QUESTIONS else JSON_parse s)"

section \<open>The quiz session\<close>

text \<open>
  The state of the attempt at the active question: \<open>answers\<close> is an object keyed by
  blank index, \<open>timeLeft\<close> is \<open>null\<close> (\<open>None\<close>) or a number of seconds.
\<close>

record session =
  answers :: "nat \<rightharpoonup> jsstring"
  checked :: bool
  score :: nat
  timeLeft :: "int option"

text \<open>
  The code units that \<open>trim\<close> strips: the white space and the line terminators of
  ECMAScript.
\<close>

definition isWhiteSpace :: "jschar \<Rightarrow> bool" where
  "isWhiteSpace c =
     (c = 0x0009 \<or> c = 0x000B \<or> c = 0x000C \<or> c = 0x0020 \<or> c = 0x00A0 \<or> c = 0xFEFF
      \<or> c = 0x1680 \<or> (0x2000 \<le> c \<and> c \<le> 0x200A) \<or> c = 0x202F \<or> c = 0x205F \<or> c = 0x3000
      \<or> isLineTerminator c)"

definition trim :: "jsstring \<Rightarrow> jsstring" where
  "trim s = rev (dropWhile isWhiteSpace (rev (dropWhile isWhiteSpace s)))"

text \<open>
  \<open>isCorrect(i)\<close>, as the truth value of its result. \<open>toLowerCase\<close> is a parameter (the
  case mapping of Unicode). With a non-empty entry and no expected answer at \<open>i\<close>,
  \<open>q.blanks[i].trim()\<close> throws a \<open>TypeError\<close>.
\<close>

definition isCorrect ::
  "(jsstring \<Rightarrow> jsstring) \<Rightarrow> question \<Rightarrow> session \<Rightarrow> nat \<Rightarrow> js_error + bool"
where
  "isCorrect toLowerCase q s i =
     (case answers s i of
        None \<Rightarrow> Inr False
      | Some a \<Rightarrow>
          if a = [] then Inr False
          else if i < length (blanks q)
          then Inr (toLowerCase (trim a) = toLowerCase (trim (blanks q ! i)))
          else Inl TypeError)"

text \<open>The \<open>for\<close> loop of \<open>handleCheck\<close>, from \<open>i\<close> with the count \<open>c\<close>.\<close>

function check_loop ::
  "(jsstring \<Rightarrow> jsstring) \<Rightarrow> question \<Rightarrow> session \<Rightarrow> nat \<Rightarrow> nat \<Rightarrow> js_error + nat"
where
  "check_loop toLowerCase q s i c =
     (if i < length (blanks q)
      then case isCorrect toLowerCase q s i of
             Inl e \<Rightarrow> Inl e
           | Inr b \<Rightarrow> check_loop toLowerCase q s (Suc i) (if b then Suc c else c)
      else Inr c)"
  by pat_completeness auto
termination
  by (relation "measure (\<lambda>(toLowerCase, q, s, i, c). length (blanks q) - i)") auto

declare check_loop.simps [simp del]

definition handleCheck ::
  "(jsstring \<Rightarrow> jsstring) \<Rightarrow> question \<Rightarrow> session \<Rightarrow> js_error + session"
where
  "handleCheck toLowerCase q s =
     (case check_loop toLowerCase q s 0 0 of
        Inl e \<Rightarrow> Inl e
      | Inr c \<Rightarrow> Inr (s\<lparr>score := c, checked := True\<rparr>))"

text \<open>\<open>q.blanks.forEach((ans, i) => (filled[i] = ans))\<close>, from the empty object.\<close>

definition filled :: "jsstring list \<Rightarrow> (nat \<rightharpoonup> jsstring)" where
  "filled bs = fold (\<lambda>(i, ans) m. m(i \<mapsto> ans)) (enumerate 0 bs) Map.empty"

definition handleShowAnswers :: "question \<Rightarrow> session \<Rightarrow> session" where
  "handleShowAnswers q s = s\<lparr>answers := filled (blanks q), checked := True\<rparr>"

definition handleReset :: "question \<Rightarrow> session \<Rightarrow> session" where
  "handleReset q s =
     s\<lparr>answers := Map.empty, checked := False, score := 0, timeLeft := timeLimitSec q\<rparr>"

text \<open>
  The session that the effect on \<open>[index, q]\<close> sets when a question becomes active.
\<close>

definition startQuestion :: "question \<Rightarrow> session" where
  "startQuestion q =
     \<lparr>answers = Map.empty, checked = False, score = 0, timeLeft = timeLimitSec q\<rparr>"

text \<open>
  The two places that call \<open>handleCheck\<close>. The button "Check answers" carries
  \<open>disabled={checked}\<close>, and a disabled button delivers no click. The effect on
  \<open>[timeLeft, checked]\<close> calls it when \<open>timeLeft === 0 && !checked\<close>.
\<close>

definition checkButton_onClick ::
  "(jsstring \<Rightarrow> jsstring) \<Rightarrow> question \<Rightarrow> session \<Rightarrow> js_error + session"
where
  "checkButton_onClick toLowerCase q s =
     (if checked s then Inr s else handleCheck toLowerCase q s)"

definition timeLeft_effect ::
  "(jsstring \<Rightarrow> jsstring) \<Rightarrow> question \<Rightarrow> session \<Rightarrow> js_error + session"
where
  "timeLeft_effect toLowerCase q s =
     (if timeLeft s = Some 0 \<and> \<not> checked s then handleCheck toLowerCase q s else Inr s)"

section \<open>The question store\<close>

text \<open>
  A parameter destructured from the draft is a value or \<open>undefined\<close> (\<open>None\<close>).
  \<open>a || b\<close> takes \<open>b\<close> when \<open>a\<close> is \<open>undefined\<close> or the empty string.
\<close>

definition or_else :: "jsstring option \<Rightarrow> jsstring \<Rightarrow> jsstring" where
  "or_else a b = (case a of None \<Rightarrow> b | Some s \<Rightarrow> if s = [] then b else s)"

text \<open>
  The parser on the \<open>transcript\<close> parameter. With \<open>undefined\<close>, \<open>exec\<close> searches the
  string \<open>"undefined"\<close> and finds nothing, and \<open>transcript.length\<close> throws.
\<close>

definition parseDraft :: "jsstring option \<Rightarrow> js_error + token list \<times> jsstring list" where
  "parseDraft transcript =
     (case transcript of
        None \<Rightarrow> Inl TypeError
      | Some t \<Rightarrow> Inr (parseTranscript t))"

text \<open>
  The decimal digits of a whole number, as \<open>"q" + Date.now()\<close> prints the clock.
\<close>

definition digit :: "nat \<Rightarrow> jschar" where
  "digit d = of_nat (48 + d)"

function numberToString :: "nat \<Rightarrow> jsstring" where
  "numberToString n =
     (if n < 10 then [digit n] else numberToString (n div 10) @ [digit (n mod 10)])"
  by pat_completeness auto
termination
  by (relation "measure (\<lambda>n. n)") auto

declare numberToString.simps [simp del]

text \<open>
  \<open>addQuestion\<close> and \<open>updateQuestion\<close>: the result is the collection handed to
  \<open>saveQuestions\<close>, which stores it as the new \<open>questions\<close> state and in local storage.
  \<open>now\<close> is the value of \<open>Date.now()\<close>.
\<close>

definition addQuestion ::
  "nat \<Rightarrow> question list \<Rightarrow> jsstring option \<Rightarrow> jsstring option \<Rightarrow> jsstring option
     \<Rightarrow> int option \<Rightarrow> js_error + question list"
where
  "addQuestion now questions title' transcript audioUrl' timeLimitSec' =
     (case parseDraft transcript of
        Inl e \<Rightarrow> Inl e
      | Inr (tokens', blanks') \<Rightarrow>
          Inr (questions @
            [\<lparr>id_q = js ''q'' @ numberToString now,
              title = or_else title' (js ''Custom question''),
              audioUrl = audioUrl',
              timeLimitSec = timeLimitSec',
              tokens = tokens',
              blanks = blanks'\<rparr>]))"

definition updateQuestion ::
  "question list \<Rightarrow> jsstring \<Rightarrow> jsstring option \<Rightarrow> jsstring option \<Rightarrow> jsstring option
     \<Rightarrow> int option \<Rightarrow> js_error + question list"
where
  "updateQuestion questions ident title' transcript audioUrl' timeLimitSec' =
     (case parseDraft transcript of
        Inl e \<Rightarrow> Inl e
      | Inr (tokens', blanks') \<Rightarrow>
          Inr (map (\<lambda>q. if id_q q = ident
                        then q\<lparr>title := or_else title' (title q),
                               audioUrl := audioUrl',
                               timeLimitSec := timeLimitSec',
                               tokens := tokens',
                               blanks := blanks'\<rparr>
                        else q)
                 questions))"

definition deleteQuestion :: "question list \<Rightarrow> jsstring \<Rightarrow> question list" where
  "deleteQuestion questions ident = filter (\<lambda>q. id_q q \<noteq> ident) questions"

section \<open>The bracket spans of a string\<close>

text \<open>
  The notions that the statements about the parser compare it with, written on the
  string itself, without the expression and without the loop.

  A span at the head of a string: an opening bracket, a first code unit of content,
  the code units after it up to the next closing bracket, and that closing bracket;
  no code unit of the content is a line terminator. The content is the result.
\<close>

definition span_here :: "jsstring \<Rightarrow> jsstring option" where
  "span_here s =
     (case s of
        c # d # cs \<Rightarrow>
          (let g = d # takeWhile (\<lambda>x. x \<noteq> rbracket) cs
           in if c = lbracket \<and> rbracket \<in> set cs \<and> list_all (\<lambda>x. \<not> isLineTerminator x) g
              then Some g
              else None)
      | _ \<Rightarrow> None)"

text \<open>
  The number of spans of a string read from left to right (a span is taken at the
  first position where there is one, and reading goes on behind it), and the string
  without the two bracket markers of each of these spans.
\<close>

function span_count :: "jsstring \<Rightarrow> nat" where
  "span_count [] = 0"
| "span_count (c # cs) =
     (case span_here (c # cs) of
        Some g \<Rightarrow> Suc (span_count (drop (Suc (length g)) cs))
      | None \<Rightarrow> span_count cs)"
  by pat_completeness auto
termination
  by (relation "measure length") auto

function strip_markers :: "jsstring \<Rightarrow> jsstring" where
  "strip_markers [] = []"
| "strip_markers (c # cs) =
     (case span_here (c # cs) of
        Some g \<Rightarrow> g @ strip_markers (drop (Suc (length g)) cs)
      | None \<Rightarrow> c # strip_markers cs)"
  by pat_completeness auto
termination
  by (relation "measure length") auto

text \<open>
  A well-formed span at the head of a string: an opening bracket, a content of one or
  more code units none of which is a bracket, and a closing bracket. The number of
  well-formed spans of a string is the number of positions where one starts, and the
  string without brackets drops every bracket.
\<close>

definition not_bracket :: "jschar \<Rightarrow> bool" where
  "not_bracket c = (c \<noteq> lbracket \<and> c \<noteq> rbracket)"

definition well_formed_span_here :: "jsstring \<Rightarrow> bool" where
  "well_formed_span_here s =
     (case s of
        [] \<Rightarrow> False
      | c # cs \<Rightarrow>
          (let g = takeWhile not_bracket cs
           in c = lbracket \<and> g \<noteq> [] \<and> take 1 (drop (length g) cs) = [rbracket]))"

fun well_formed_spans :: "jsstring \<Rightarrow> nat" where
  "well_formed_spans [] = 0"
| "well_formed_spans (c # cs) =
     (if well_formed_span_here (c # cs) then 1 else 0) + well_formed_spans cs"

definition without_brackets :: "jsstring \<Rightarrow> jsstring" where
  "without_brackets s = filter not_bracket s"

text \<open>
  A transcript whose brackets are well-formed: pieces of text without brackets, each
  followed by a well-formed span whose content has no line terminator, and a last
  piece of text without brackets.
\<close>

fun wf_transcript :: "(jsstring \<times> jsstring) list \<Rightarrow> jsstring \<Rightarrow> jsstring" where
  "wf_transcript [] t = t"
| "wf_transcript ((l, g) # segs) t = l @ lbracket # g @ rbracket # wf_transcript segs t"

definition wf_parts :: "(jsstring \<times> jsstring) list \<Rightarrow> jsstring \<Rightarrow> bool" where
  "wf_parts segs t =
     (list_all (\<lambda>(l, g). list_all not_bracket l \<and> g \<noteq> [] \<and> list_all not_bracket g
                        \<and> list_all (\<lambda>x. \<not> isLineTerminator x) g) segs
      \<and> list_all not_bracket t)"

text \<open>
  The string tokens concatenated, every placeholder replaced by its answer, the
  blank indices of the placeholders in token order, and the text after the last
  placeholder (the last token when it is a string, and nothing otherwise).
\<close>

definition trailing_text :: "token list \<Rightarrow> jsstring" where
  "trailing_text ts = (case rev ts of Lit w # _ \<Rightarrow> w | _ \<Rightarrow> [])"

definition fill_blanks :: "token list \<Rightarrow> jsstring list \<Rightarrow> jsstring" where
  "fill_blanks ts bs =
     concat (map (\<lambda>t. case t of Lit s \<Rightarrow> s
                           | Blank n \<Rightarrow> if n < length bs then bs ! n else []) ts)"

definition blank_indices :: "token list \<Rightarrow> nat list" where
  "blank_indices ts = concat (map (\<lambda>t. case t of Lit s \<Rightarrow> [] | Blank n \<Rightarrow> [n]) ts)"

section \<open>Grading: a case mapping for the examples, and the contract\<close>

text \<open>
  An instance of the parameter \<open>toLowerCase\<close> for the examples: on strings of ASCII
  code units \<open>toLowerCase\<close> maps \<open>A\<close>-\<open>Z\<close> to \<open>a\<close>-\<open>z\<close> and keeps the rest.
\<close>

definition lowerASCII :: "jsstring \<Rightarrow> jsstring" where
  "lowerASCII s = map (\<lambda>c. if 0x41 \<le> c \<and> c \<le> 0x5A then c + 0x20 else c) s"

text \<open>
  Following the words of the grading contract: the entry at \<open>i\<close> is present, is not
  empty and, trimmed and lowercased, equals the expected answer at \<open>i\<close>, trimmed and
  lowercased.
\<close>

definition graded :: "(jsstring \<Rightarrow> jsstring) \<Rightarrow> question \<Rightarrow> session \<Rightarrow> nat \<Rightarrow> bool" where
  "graded lc q s i =
     (case answers s i of
        None \<Rightarrow> False
      | Some a \<Rightarrow> a \<noteq> [] \<and> lc (trim a) = lc (trim (blanks q ! i)))"

section \<open>Example data\<close>

text \<open>
  A question with the expected answers \<open>Paris\<close> and \<open>5\<close>, a session in which both
  blanks are typed (the first in another case and with spaces around it), and a session
  in which the first entry is the empty string and the second is absent.
\<close>

definition paris :: question where
  "paris =
     \<lparr>id_q = js ''q2'', title = js ''Capitals'', audioUrl = None, timeLimitSec = None,
      tokens = [Blank 0, Lit (js '' has ''), Blank 1, Lit (js '' towers'')],
      blanks = [js ''Paris'', js ''5'']\<rparr>"

definition paris_typed :: session where
  "paris_typed =
     \<lparr>answers = [0 \<mapsto> js '' paris '', 1 \<mapsto> js ''5''], checked = False, score = 0,
      timeLeft = None\<rparr>"

definition paris_partial :: session where
  "paris_partial =
     \<lparr>answers = [0 \<mapsto> []], checked = False, score = 0, timeLeft = None\<rparr>"

text \<open>The session after "Show answers" on the fresh question.\<close>

definition revealed :: session where
  "revealed = handleShowAnswers paris (startQuestion paris)"

text \<open>
  A collection of two questions, the second question after an update from the
  transcript \<open>[Rome] has 7 hills\<close>, and the question that \<open>addQuestion\<close> builds from the
  same transcript at the clock reading 1700000000000.
\<close>

definition two_questions :: "question list" where
  "two_questions = SAMPLE_QUESTIONS @ [paris]"

definition rome :: question where
  "rome =
     \<lparr>id_q = js ''q2'', title = js ''Capitals'', audioUrl = Some (js ''rome.mp3''),
      timeLimitSec = Some 60,
      tokens = [Blank 0, Lit (js '' has 7 hills'')],
      blanks = [js ''Rome'']\<rparr>"

definition rome_added :: question where
  "rome_added =
     \<lparr>id_q = js ''q1700000000000'', title = js ''Custom question'', audioUrl = Some (js ''rome.mp3''),
      timeLimitSec = Some 60,
      tokens = [Blank 0, Lit (js '' has 7 hills'')],
      blanks = [js ''Rome'']\<rparr>"

text \<open>
  The pieces of the well-formed transcript \<open>ab [cd] e[f]g\<close>.
\<close>

definition two_spans :: "(jsstring \<times> jsstring) list" where
  "two_spans = [(js ''ab '', js ''cd''), (js '' e'', js ''f'')]"

section \<open>Properties of the regular expression and of the parser loop\<close>

lemma lazy_dots_Some:
  "lazy_dots s = Some g \<Longrightarrow>
     (\<exists>rest. s = g @ rbracket # rest) \<and> rbracket \<notin> set g \<and> (\<forall>c \<in> set g. \<not> isLineTerminator c)"
proof (induction s arbitrary: g)
  case Nil
  then show ?case by simp
next
  case (Cons c cs)
  show ?case
  proof (cases "c = rbracket")
    case True
    with Cons.prems show ?thesis by simp
  next
    case False
    with Cons.prems obtain h where h: "lazy_dots cs = Some h" "g = c # h" "\<not> isLineTerminator c"
      by (auto split: if_splits)
    from Cons.IH [OF h(1)] h(2,3) False show ?thesis by auto
  qed
qed

lemma lazy_dots_complete:
  "rbracket \<notin> set g \<Longrightarrow> \<forall>c \<in> set g. \<not> isLineTerminator c \<Longrightarrow>
     lazy_dots (g @ rbracket # rest) = Some g"
  by (induction g) auto

lemma match_here_Some:
  assumes "match_here s = Some g"
  shows "(\<exists>rest. s = lbracket # g @ rbracket # rest) \<and> g \<noteq> [] \<and> rbracket \<notin> set (tl g)
           \<and> (\<forall>c \<in> set g. \<not> isLineTerminator c)"
proof (cases s rule: match_here.cases)
  case (1 c d cs)
  with assms obtain h where h: "lazy_dots cs = Some h" "g = d # h" "c = lbracket" "\<not> isLineTerminator d"
    by (auto split: if_splits)
  from lazy_dots_Some [OF h(1)] h(2,3,4) 1 show ?thesis by auto
qed (use assms in simp_all)

lemma match_here_complete:
  assumes "g \<noteq> []" "rbracket \<notin> set (tl g)" "\<forall>c \<in> set g. \<not> isLineTerminator c"
  shows "match_here (lbracket # g @ rbracket # rest) = Some g"
proof -
  from assms(1) obtain d h where g: "g = d # h" by (cases g) auto
  with assms have "lazy_dots (h @ rbracket # rest) = Some h"
    by (intro lazy_dots_complete) auto
  with g assms(3) show ?thesis by simp
qed

lemma match_here_drop:
  assumes "match_here (drop j str) = Some g"
  shows "drop j str = lbracket # g @ rbracket # drop (j + length g + 2) str"
proof -
  from match_here_Some [OF assms] obtain rest where r: "drop j str = lbracket # g @ rbracket # rest"
    by blast
  have "drop (j + length g + 2) str = drop (length g + 2) (drop j str)"
    by (simp add: add.commute)
  also have "\<dots> = rest" by (simp add: r)
  finally show ?thesis using r by simp
qed

lemma exec_Some:
  "exec str i = Some m \<Longrightarrow>
     match_here (drop (index m) str) = Some (group1 m)
     \<and> regex_lastIndex m = index m + length (group1 m) + 2
     \<and> (\<forall>j. i \<le> j \<and> j < index m \<longrightarrow> match_here (drop j str) = None)"
proof (induction str i rule: exec.induct)
  case (1 str i)
  show ?case
  proof (cases "match_here (drop i str)")
    case None
    with "1.prems" have le: "\<not> length str < i" and rec: "exec str (Suc i) = Some m"
      by (auto simp: exec.simps [of str i] split: if_splits)
    have "j = i \<or> Suc i \<le> j" if "i \<le> j" for j using that by arith
    with "1.IH" [OF le None rec] None show ?thesis by auto
  next
    case (Some g)
    with "1.prems" have "m = \<lparr>index = i, group1 = g, regex_lastIndex = i + length g + 2\<rparr>"
      by (auto simp: exec.simps [of str i] split: if_splits)
    with Some show ?thesis by simp
  qed
qed

lemma exec_None:
  "exec str i = None \<Longrightarrow> i \<le> j \<Longrightarrow> match_here (drop j str) = None"
proof (induction str i rule: exec.induct)
  case (1 str i)
  show ?case
  proof (cases "length str < i")
    case True
    with "1.prems" show ?thesis by simp
  next
    case False
    with "1.prems" have n: "match_here (drop i str) = None" and rec: "exec str (Suc i) = None"
      by (auto simp: exec.simps [of str i] split: option.splits)
    show ?thesis
    proof (cases "j = i")
      case True
      with n show ?thesis by simp
    next
      case False
      with "1.prems" have "Suc i \<le> j" by simp
      from "1.IH" [OF \<open>\<not> length str < i\<close> n rec this] show ?thesis .
    qed
  qed
qed

lemma exec_split:
  assumes "exec str i = Some m"
  shows "drop i str =
           slice str i (index m) @ lbracket # group1 m @ rbracket # drop (regex_lastIndex m) str"
proof -
  from exec_bounds [OF assms] have le: "i \<le> index m" by simp
  from exec_Some [OF assms] have mh: "match_here (drop (index m) str) = Some (group1 m)"
    and li: "regex_lastIndex m = index m + length (group1 m) + 2" by simp_all
  have a: "take (index m - i) (drop i str) @ drop (index m - i) (drop i str) = drop i str"
    by (rule append_take_drop_id)
  have b: "drop (index m - i) (drop i str) = drop (index m) str"
    using le by simp
  have "drop i str = slice str i (index m) @ drop (index m) str"
    unfolding slice_def using a b by simp
  also have "drop (index m) str = lbracket # group1 m @ rbracket # drop (regex_lastIndex m) str"
    using match_here_drop [OF mh] li by simp
  finally show ?thesis .
qed

lemma tokenText_snoc:
  "(\<forall>n. t = Blank n \<longrightarrow> n < length bl) \<Longrightarrow> tokenText (bl @ bs') t = tokenText bl t"
  by (cases t) (simp_all add: tokenText_def nth_append)

lemma editableTranscript_snoc:
  "\<forall>n. Blank n \<in> set toks \<longrightarrow> n < length bl \<Longrightarrow>
     editableTranscript toks (bl @ bs') = editableTranscript toks bl"
  by (induction toks) (simp_all add: editableTranscript_def tokenText_snoc)

lemma editableTranscript_append:
  "editableTranscript (ts @ us) bl = editableTranscript ts bl @ editableTranscript us bl"
  by (simp add: editableTranscript_def)

lemma parse_loop_induct [case_names step]:
  assumes "\<And>t i toks bl.
     (\<And>m. exec t i = Some m \<Longrightarrow>
        P t (regex_lastIndex m)
          ((if index m > i then toks @ [Lit (slice t i (index m))] else toks) @ [Blank (length bl)])
          (bl @ [group1 m]))
     \<Longrightarrow> P t i toks bl"
  shows "P t i toks bl"
proof -
  have "(\<lambda>t (i, toks, bl). P t i toks bl) t (i, toks, bl)"
  proof (rule parse_loop.induct)
    fix transcript lastIndex tokens blanks
    assume "\<And>m. exec transcript lastIndex = Some m \<Longrightarrow>
       (\<lambda>t (i, toks, bl). P t i toks bl) transcript (regex_lastIndex m,
             (if index m > lastIndex
              then tokens @ [Lit (slice transcript lastIndex (index m))]
              else tokens) @ [Blank (length blanks)],
             blanks @ [group1 m])"
    then have "\<And>m. exec transcript lastIndex = Some m \<Longrightarrow>
       P transcript (regex_lastIndex m)
             ((if index m > lastIndex
              then tokens @ [Lit (slice transcript lastIndex (index m))]
              else tokens) @ [Blank (length blanks)])
             (blanks @ [group1 m])"
      by simp
    from assms [OF this]
    show "(\<lambda>t (i, toks, bl). P t i toks bl) transcript (lastIndex, tokens, blanks)"
      by simp
  qed
  then show ?thesis by simp
qed

lemma parse_loop_editable:
  "parse_loop t (i, toks, bl) = (i', toks', bl') \<Longrightarrow>
   \<forall>n. Blank n \<in> set toks \<longrightarrow> n < length bl \<Longrightarrow>
     editableTranscript toks' bl' @ drop i' t = editableTranscript toks bl @ drop i t"
proof (induction t i toks bl rule: parse_loop_induct)
  case (step t i toks bl)
  show ?case
  proof (cases "exec t i")
    case None
    with step.prems(1) show ?thesis by (simp add: parse_loop.simps [of t i])
  next
    case (Some m)
    define toks2 where
      "toks2 = (if index m > i then toks @ [Lit (slice t i (index m))] else toks) @ [Blank (length bl)]"
    from Some step.prems(1)
    have rec: "parse_loop t (regex_lastIndex m, toks2, bl @ [group1 m]) = (i', toks', bl')"
      by (simp add: parse_loop.simps [of t i] toks2_def)
    have rng: "\<forall>n. Blank n \<in> set toks2 \<longrightarrow> n < length (bl @ [group1 m])"
      using step.prems(2) by (auto simp: toks2_def less_Suc_eq)
    have sl: "slice t i (index m) = []" if "\<not> index m > i"
      using that by (simp add: slice_def)
    have ed: "editableTranscript toks2 (bl @ [group1 m])
            = editableTranscript toks bl @ slice t i (index m) @ lbracket # group1 m @ [rbracket]"
      using step.prems(2) sl
      by (simp add: toks2_def editableTranscript_append editableTranscript_snoc)
         (simp add: editableTranscript_def tokenText_def)
    from step.IH [OF Some] rec rng
    have "editableTranscript toks' bl' @ drop i' t
            = editableTranscript toks2 (bl @ [group1 m]) @ drop (regex_lastIndex m) t"
      by (simp add: toks2_def)
    with ed exec_split [OF Some] show ?thesis by simp
  qed
qed

lemma lazy_dots_takeWhile:
  "lazy_dots cs =
     (if rbracket \<in> set cs \<and> list_all (\<lambda>x. \<not> isLineTerminator x) (takeWhile (\<lambda>x. x \<noteq> rbracket) cs)
      then Some (takeWhile (\<lambda>x. x \<noteq> rbracket) cs)
      else None)"
  by (induction cs) auto

lemma match_here_span_here:
  "match_here s = span_here s"
  by (cases s rule: match_here.cases) (auto simp: span_here_def lazy_dots_takeWhile Let_def)

lemma no_match_spans:
  "\<forall>k. match_here (drop k s) = None \<Longrightarrow> span_count s = 0 \<and> strip_markers s = s"
proof (induction s)
  case Nil
  show ?case by simp
next
  case (Cons c cs)
  from Cons.prems have h: "match_here (c # cs) = None"
    by (metis drop0)
  have "\<forall>k. match_here (drop k cs) = None"
  proof
    fix k
    from Cons.prems have "match_here (drop (Suc k) (c # cs)) = None" by blast
    then show "match_here (drop k cs) = None" by simp
  qed
  from Cons.IH [OF this] h show ?case
    by (simp add: match_here_span_here [symmetric])
qed

lemma first_match_spans:
  "\<forall>k<n. match_here (drop k s) = None \<Longrightarrow> match_here (drop n s) = Some g \<Longrightarrow>
     span_count s = Suc (span_count (drop (n + length g + 2) s))
     \<and> strip_markers s = take n s @ g @ strip_markers (drop (n + length g + 2) s)"
proof (induction n arbitrary: s)
  case 0
  then obtain c cs where s: "s = c # cs" by (cases s) auto
  with 0 show ?case by (simp add: match_here_span_here [symmetric])
next
  case (Suc n)
  then obtain c cs where s: "s = c # cs" by (cases s) auto
  from Suc.prems(1) have h: "match_here (c # cs) = None"
    unfolding s by (metis drop0 zero_less_Suc)
  have a: "\<forall>k<n. match_here (drop k cs) = None"
  proof (intro allI impI)
    fix k assume "k < n"
    with Suc.prems(1) have "match_here (drop (Suc k) s) = None" by simp
    then show "match_here (drop k cs) = None" by (simp add: s)
  qed
  from Suc.prems(2) have b: "match_here (drop n cs) = Some g" by (simp add: s)
  from Suc.IH [OF a b] h show ?case
    by (simp add: s match_here_span_here [symmetric])
qed

lemma exec_None_spans:
  assumes "exec str i = None"
  shows "span_count (drop i str) = 0 \<and> strip_markers (drop i str) = drop i str"
proof (rule no_match_spans, rule allI)
  fix k
  have "match_here (drop (i + k) str) = None"
    by (rule exec_None [OF assms]) simp
  then show "match_here (drop k (drop i str)) = None"
    by (simp add: add.commute)
qed

lemma exec_Some_spans:
  assumes "exec str i = Some m"
  shows "span_count (drop i str) = Suc (span_count (drop (regex_lastIndex m) str))
     \<and> strip_markers (drop i str)
         = slice str i (index m) @ group1 m @ strip_markers (drop (regex_lastIndex m) str)"
proof -
  from exec_bounds [OF assms] have le: "i \<le> index m" by simp
  from exec_Some [OF assms] have mh: "match_here (drop (index m) str) = Some (group1 m)"
    and li: "regex_lastIndex m = index m + length (group1 m) + 2"
    and no: "\<forall>j. i \<le> j \<and> j < index m \<longrightarrow> match_here (drop j str) = None" by simp_all
  define n where "n = index m - i"
  have n: "i + n = index m" using le by (simp add: n_def)
  have a: "\<forall>k<n. match_here (drop k (drop i str)) = None"
  proof (intro allI impI)
    fix k assume "k < n"
    with n no have "match_here (drop (i + k) str) = None" by simp
    then show "match_here (drop k (drop i str)) = None" by (simp add: add.commute)
  qed
  have b: "match_here (drop n (drop i str)) = Some (group1 m)"
    using mh n by (simp add: add.commute)
  have "n + length (group1 m) + 2 + i = regex_lastIndex m"
    using n li by arith
  then have c: "drop (n + length (group1 m) + 2) (drop i str) = drop (regex_lastIndex m) str"
    by (simp only: drop_drop)
  from first_match_spans [OF a b] show ?thesis
    unfolding c by (simp add: slice_def n_def)
qed

lemma blank_indices_append:
  "blank_indices (ts @ us) = blank_indices ts @ blank_indices us"
  by (simp add: blank_indices_def)

lemma blank_indices_mem:
  "Blank n \<in> set ts \<Longrightarrow> n \<in> set (blank_indices ts)"
  by (induction ts) (auto simp: blank_indices_def)

lemma fill_blanks_append:
  "fill_blanks (ts @ us) bl = fill_blanks ts bl @ fill_blanks us bl"
  by (simp add: fill_blanks_def)

lemma fill_blanks_snoc:
  "\<forall>n. Blank n \<in> set ts \<longrightarrow> n < length bl \<Longrightarrow> fill_blanks ts (bl @ bs') = fill_blanks ts bl"
proof (induction ts)
  case Nil
  show ?case by (simp add: fill_blanks_def)
next
  case (Cons t ts)
  then have "fill_blanks ts (bl @ bs') = fill_blanks ts bl" by simp
  moreover have "fill_blanks [t] (bl @ bs') = fill_blanks [t] bl"
    using Cons.prems by (cases t) (auto simp: fill_blanks_def nth_append)
  ultimately show ?case
    using fill_blanks_append [of "[t]" ts] by simp
qed

lemma parse_loop_spans:
  "parse_loop t (i, toks, bl) = (i', toks', bl') \<Longrightarrow>
   blank_indices toks = [0..<length bl] \<Longrightarrow>
     blank_indices toks' = [0..<length bl']
     \<and> length bl' = length bl + span_count (drop i t)
     \<and> fill_blanks toks' bl' @ drop i' t = fill_blanks toks bl @ strip_markers (drop i t)"
proof (induction t i toks bl rule: parse_loop_induct)
  case (step t i toks bl)
  show ?case
  proof (cases "exec t i")
    case None
    with step.prems exec_None_spans [OF None] show ?thesis
      by (simp add: parse_loop.simps [of t i])
  next
    case (Some m)
    define toks2 where
      "toks2 = (if index m > i then toks @ [Lit (slice t i (index m))] else toks) @ [Blank (length bl)]"
    from Some step.prems(1)
    have rec: "parse_loop t (regex_lastIndex m, toks2, bl @ [group1 m]) = (i', toks', bl')"
      by (simp add: parse_loop.simps [of t i] toks2_def)
    have bi: "blank_indices toks2 = [0..<length (bl @ [group1 m])]"
      using step.prems(2) by (simp add: toks2_def blank_indices_append) (simp add: blank_indices_def)
    have rng: "\<forall>n. Blank n \<in> set toks \<longrightarrow> n < length bl"
      using blank_indices_mem [of _ toks] step.prems(2) by auto
    have sl: "slice t i (index m) = []" if "\<not> index m > i"
      using that by (simp add: slice_def)
    have fb: "fill_blanks toks2 (bl @ [group1 m]) = fill_blanks toks bl @ slice t i (index m) @ group1 m"
      using sl by (simp add: toks2_def fill_blanks_append fill_blanks_snoc [OF rng])
         (simp add: fill_blanks_def)
    from step.IH [OF Some] rec bi
    have ih: "blank_indices toks' = [0..<length bl']"
       "length bl' = length (bl @ [group1 m]) + span_count (drop (regex_lastIndex m) t)"
       "fill_blanks toks' bl' @ drop i' t
          = fill_blanks toks2 (bl @ [group1 m]) @ strip_markers (drop (regex_lastIndex m) t)"
      by (simp_all add: toks2_def)
    from ih fb exec_Some_spans [OF Some] show ?thesis by simp
  qed
qed

text \<open>
  The parser on a transcript with two spans and an unmatched opening bracket, and on
  the edge cases: the empty string, no bracket, only brackets, adjacent spans.
\<close>

lemma parseTranscript_example:
  "parseTranscript (js ''ab [cd] e[f][g'')
     = ([Lit (js ''ab ''), Blank 0, Lit (js '' e''), Blank 1, Lit (js ''[g'')], [js ''cd'', js ''f''])
   \<and> span_count (js ''ab [cd] e[f][g'') = 2
   \<and> strip_markers (js ''ab [cd] e[f][g'') = js ''ab cd ef[g''"
  by code_simp

lemma parseTranscript_edge_cases:
  "parseTranscript [] = ([], [])
   \<and> parseTranscript (js ''no brackets'') = ([Lit (js ''no brackets'')], [])
   \<and> parseTranscript (js ''[]'') = ([Lit (js ''[]'')], [])
   \<and> parseTranscript (js ''[[]'') = ([Blank 0], [js ''[''])
   \<and> parseTranscript (js '']['') = ([Lit (js '']['')], [])
   \<and> parseTranscript (js ''[a][b]'') = ([Blank 0, Blank 1], [js ''a'', js ''b''])"
  by code_simp

lemma parse_loop_blanks:
  "parse_loop t (i, toks, bl) = (i', toks', bl') \<Longrightarrow> b \<in> set bl' \<Longrightarrow>
     b \<in> set bl \<or> (\<exists>j. match_here (drop j t) = Some b)"
proof (induction t i toks bl rule: parse_loop_induct)
  case (step t i toks bl)
  show ?case
  proof (cases "exec t i")
    case None
    with step.prems show ?thesis by (simp add: parse_loop.simps [of t i])
  next
    case (Some m)
    from Some step.prems(1)
    have "parse_loop t (regex_lastIndex m,
            (if index m > i then toks @ [Lit (slice t i (index m))] else toks) @ [Blank (length bl)],
            bl @ [group1 m]) = (i', toks', bl')"
      by (simp add: parse_loop.simps [of t i])
    from step.IH [OF Some this step.prems(2)] exec_Some [OF Some]
    show ?thesis by auto
  qed
qed

lemma parseTranscript_blanks:
  assumes "b \<in> set (snd (parseTranscript T))"
  shows "\<exists>j. match_here (drop j T) = Some b"
proof -
  obtain i' toks' bl' where p: "parse_loop T (0, [], []) = (i', toks', bl')"
    by (cases "parse_loop T (0, [], [])") auto
  with assms have "b \<in> set bl'" by (simp add: parseTranscript_def)
  from parse_loop_blanks [OF p this] show ?thesis by simp
qed

lemma no_rbracket_no_match:
  assumes "rbracket \<notin> set s"
  shows "match_here (drop j s) = None"
proof (cases "match_here (drop j s)")
  case (Some g)
  from match_here_Some [OF Some] have "rbracket \<in> set (drop j s)" by auto
  with assms show ?thesis by (auto dest: in_set_dropD)
qed simp

lemma no_lbracket_no_match:
  assumes "lbracket \<notin> set s"
  shows "match_here (drop j s) = None"
proof (cases "match_here (drop j s)")
  case (Some g)
  from match_here_Some [OF Some] have "lbracket \<in> set (drop j s)" by auto
  with assms show ?thesis by (auto dest: in_set_dropD)
qed simp

lemma not_bracket_set:
  "list_all not_bracket l \<Longrightarrow> lbracket \<notin> set l \<and> rbracket \<notin> set l"
  by (auto simp: list_all_iff not_bracket_def)

lemma before_lbracket_no_match:
  assumes "lbracket \<notin> set l" "k < length l"
  shows "match_here (drop k (l @ S)) = None"
proof -
  from assms(2) obtain x xs where d: "drop k l = x # xs"
    by (cases "drop k l") auto
  then have "x \<in> set l" by (metis in_set_dropD list.set_intros(1))
  with assms(1) have "x \<noteq> lbracket" by auto
  moreover have "drop k (l @ S) = x # xs @ S"
    using assms(2) d by simp
  ultimately show ?thesis
    by (cases "match_here (drop k (l @ S))") (auto dest: match_here_Some)
qed

lemma span_after_text:
  assumes "lbracket \<notin> set l" "g \<noteq> []" "rbracket \<notin> set g" "\<forall>c \<in> set g. \<not> isLineTerminator c"
  shows "span_count (l @ lbracket # g @ rbracket # R) = Suc (span_count R)
     \<and> strip_markers (l @ lbracket # g @ rbracket # R) = l @ g @ strip_markers R"
proof -
  let ?S = "lbracket # g @ rbracket # R"
  have a: "\<forall>k<length l. match_here (drop k (l @ ?S)) = None"
    using before_lbracket_no_match [OF assms(1)] by blast
  have "rbracket \<notin> set (tl g)"
    using assms(2,3) by (cases g) auto
  from match_here_complete [OF assms(2) this assms(4)]
  have b: "match_here (drop (length l) (l @ ?S)) = Some g" by simp
  have c: "drop (length l + length g + 2) (l @ ?S) = R" by simp
  from first_match_spans [OF a b] show ?thesis
    unfolding c by simp
qed

lemma text_no_span:
  assumes "lbracket \<notin> set t"
  shows "span_count t = 0 \<and> strip_markers t = t"
  using no_match_spans [of t] no_lbracket_no_match [OF assms] by blast

lemma wf_transcript_spans:
  "wf_parts segs t \<Longrightarrow>
     span_count (wf_transcript segs t) = length segs
     \<and> strip_markers (wf_transcript segs t) = without_brackets (wf_transcript segs t)"
proof (induction segs)
  case Nil
  then have "list_all not_bracket t" by (simp add: wf_parts_def)
  then have "without_brackets t = t" "lbracket \<notin> set t"
    by (auto simp: without_brackets_def list_all_iff not_bracket_def)
  with text_no_span [of t] show ?case by simp
next
  case (Cons lg segs)
  obtain l g where lg: "lg = (l, g)" by (cases lg)
  from Cons.prems have w: "wf_parts segs t"
    and l: "list_all not_bracket l" and g: "g \<noteq> []" "list_all not_bracket g"
      "list_all (\<lambda>x. \<not> isLineTerminator x) g"
    by (simp_all add: wf_parts_def lg)
  from not_bracket_set [OF l] not_bracket_set [OF g(2)] g(3)
  have h: "lbracket \<notin> set l" "rbracket \<notin> set g" "\<forall>c \<in> set g. \<not> isLineTerminator c"
    by (simp_all add: list_all_iff)
  have f: "without_brackets (l @ lbracket # g @ rbracket # R) = l @ g @ without_brackets R" for R
    using l g(2) by (auto simp: without_brackets_def list_all_iff not_bracket_def)
  from span_after_text [OF h(1) g(1) h(2,3)] Cons.IH [OF w] f show ?case
    by (simp add: lg)
qed

lemma well_formed_spans_text:
  "list_all not_bracket l \<Longrightarrow> well_formed_spans (l @ S) = well_formed_spans S"
  by (induction l) (simp_all add: well_formed_span_here_def not_bracket_def)

lemma well_formed_spans_span:
  assumes "g \<noteq> []" "list_all not_bracket g"
  shows "well_formed_spans (lbracket # g @ rbracket # R) = Suc (well_formed_spans R)"
proof -
  have "takeWhile not_bracket (g @ rbracket # R) = g"
    using assms(2) by (simp add: takeWhile_append2 list_all_iff not_bracket_def)
  with assms(1) have "well_formed_span_here (lbracket # g @ rbracket # R)"
    by (simp add: well_formed_span_here_def)
  moreover have "\<not> well_formed_span_here (rbracket # R)"
    by (simp add: well_formed_span_here_def lbracket_def rbracket_def)
  ultimately show ?thesis
    using well_formed_spans_text [OF assms(2), of "rbracket # R"] by simp
qed

lemma wf_transcript_well_formed_spans:
  "wf_parts segs t \<Longrightarrow> well_formed_spans (wf_transcript segs t) = length segs"
proof (induction segs)
  case Nil
  then have "list_all not_bracket t" by (simp add: wf_parts_def)
  from well_formed_spans_text [OF this, of "[]"] show ?case by simp
next
  case (Cons lg segs)
  obtain l g where lg: "lg = (l, g)" by (cases lg)
  from Cons.prems have w: "wf_parts segs t"
    and l: "list_all not_bracket l" and g: "g \<noteq> []" "list_all not_bracket g"
    by (simp_all add: wf_parts_def lg)
  from well_formed_spans_text [OF l] well_formed_spans_span [OF g] Cons.IH [OF w]
  show ?case by (simp add: lg)
qed

lemma match_here_append_no_rbracket:
  assumes "rbracket \<notin> set v"
  shows "match_here (s @ v) = match_here s"
proof (cases s)
  case Nil
  with no_rbracket_no_match [OF assms, of 0] show ?thesis by simp
next
  case (Cons c s')
  show ?thesis
  proof (cases s')
    case Nil
    from assms have "span_here (c # v) = None"
      by (cases v) (simp_all add: span_here_def Let_def)
    moreover have "span_here [c] = None"
      by (simp add: span_here_def)
    ultimately show ?thesis
      using \<open>s = c # s'\<close> Nil by (simp add: match_here_span_here)
  next
    case (Cons d cs)
    with assms \<open>s = c # s'\<close> show ?thesis
      by (auto simp: match_here_span_here span_here_def Let_def takeWhile_append1)
  qed
qed

lemma match_here_append_stable:
  assumes "rbracket \<in> set (drop 2 s)"
  shows "match_here (s @ t) = match_here s"
proof -
  from assms obtain c d cs where s: "s = c # d # cs"
    by (cases s rule: match_here.cases) auto
  with assms have "rbracket \<in> set cs" by simp
  then have "takeWhile (\<lambda>x. x \<noteq> rbracket) (cs @ t) = takeWhile (\<lambda>x. x \<noteq> rbracket) cs"
    by (metis (mono_tags, lifting) takeWhile_append1)
  with \<open>rbracket \<in> set cs\<close> show ?thesis
    by (simp add: s match_here_span_here span_here_def Let_def)
qed

lemma match_here_prefix:
  assumes "match_here s = Some g"
  shows "match_here (s @ t) = Some g"
proof -
  from match_here_Some [OF assms] obtain rest where "s = lbracket # g @ rbracket # rest"
    and "g \<noteq> []" "rbracket \<notin> set (tl g)" "\<forall>c \<in> set g. \<not> isLineTerminator c"
    by blast
  with match_here_complete [of g "rest @ t"] show ?thesis by simp
qed

lemma exec_first:
  "i \<le> p \<Longrightarrow> \<forall>k. i \<le> k \<and> k < p \<longrightarrow> match_here (drop k str) = None \<Longrightarrow>
   match_here (drop p str) = Some g \<Longrightarrow>
     exec str i = Some \<lparr>index = p, group1 = g, regex_lastIndex = p + length g + 2\<rparr>"
proof (induction str i rule: exec.induct)
  case (1 str i)
  from "1.prems"(3) have "p < length str"
    by (cases "p < length str") simp_all
  with "1.prems"(1) have le: "\<not> length str < i" by simp
  show ?case
  proof (cases "i = p")
    case True
    with le "1.prems"(3) show ?thesis
      by (simp add: exec.simps [of str p])
  next
    case False
    with "1.prems"(1,2) have n: "match_here (drop i str) = None" and s: "Suc i \<le> p" by simp_all
    from "1.prems"(2) have "\<forall>k. Suc i \<le> k \<and> k < p \<longrightarrow> match_here (drop k str) = None"
      by simp
    from "1.IH" [OF le n s this "1.prems"(3)] le n show ?thesis
      by (simp add: exec.simps [of str i])
  qed
qed

lemma exec_None_from:
  assumes "\<forall>j. i \<le> j \<longrightarrow> match_here (drop j str) = None"
  shows "exec str i = None"
proof (cases "exec str i")
  case (Some m)
  from exec_bounds [OF Some] exec_Some [OF Some] assms show ?thesis by simp
qed simp

lemma exec_append_no_rbracket:
  assumes "rbracket \<notin> set v" "i \<le> length u"
  shows "exec (u @ v) i = exec u i"
proof (cases "exec u i")
  case None
  have "match_here (drop j (u @ v)) = None" if "i \<le> j" for j
  proof (cases "j \<le> length u")
    case True
    with exec_None [OF None that] match_here_append_no_rbracket [OF assms(1), of "drop j u"]
    show ?thesis by simp
  next
    case False
    with no_rbracket_no_match [OF assms(1), of "j - length u"] show ?thesis by simp
  qed
  with None exec_None_from [of i "u @ v"] show ?thesis by simp
next
  case (Some m)
  from exec_bounds [OF Some] have b: "i \<le> index m" "regex_lastIndex m \<le> length u"
    "index m + 2 < regex_lastIndex m" by simp_all
  from exec_Some [OF Some] have mh: "match_here (drop (index m) u) = Some (group1 m)"
    and li: "regex_lastIndex m = index m + length (group1 m) + 2"
    and no: "\<forall>j. i \<le> j \<and> j < index m \<longrightarrow> match_here (drop j u) = None" by simp_all
  have d: "drop k (u @ v) = drop k u @ v" if "k \<le> index m" for k
    using that b by simp
  have 1: "\<forall>k. i \<le> k \<and> k < index m \<longrightarrow> match_here (drop k (u @ v)) = None"
    using no d match_here_append_no_rbracket [OF assms(1)] by simp
  have 2: "match_here (drop (index m) (u @ v)) = Some (group1 m)"
    using mh d match_here_append_no_rbracket [OF assms(1)] by simp
  from exec_first [OF b(1) 1 2] li Some show ?thesis by simp
qed

lemma parse_loop_grows:
  "parse_loop t (i, toks, bl) = (i', toks', bl') \<Longrightarrow>
     (\<exists>ts. toks' = toks @ ts \<and> (ts = [] \<or> (\<exists>us n. ts = us @ [Blank n])))
     \<and> (\<exists>bs. bl' = bl @ bs)
     \<and> (i \<le> length t \<longrightarrow> i \<le> i' \<and> i' \<le> length t)"
proof (induction t i toks bl rule: parse_loop_induct)
  case (step t i toks bl)
  show ?case
  proof (cases "exec t i")
    case None
    with step.prems show ?thesis by (simp add: parse_loop.simps [of t i])
  next
    case (Some m)
    define toks2 where
      "toks2 = (if index m > i then toks @ [Lit (slice t i (index m))] else toks) @ [Blank (length bl)]"
    from Some step.prems
    have rec: "parse_loop t (regex_lastIndex m, toks2, bl @ [group1 m]) = (i', toks', bl')"
      by (simp add: parse_loop.simps [of t i] toks2_def)
    from step.IH [OF Some] rec obtain ts bs where
      ts: "toks' = toks2 @ ts" "ts = [] \<or> (\<exists>us n. ts = us @ [Blank n])"
      and bs: "bl' = (bl @ [group1 m]) @ bs"
      and c: "regex_lastIndex m \<le> length t \<longrightarrow> regex_lastIndex m \<le> i' \<and> i' \<le> length t"
      by (auto simp: toks2_def)
    obtain e where e: "toks2 = toks @ e @ [Blank (length bl)]"
      by (cases "index m > i") (simp_all add: toks2_def)
    have "\<exists>us n. e @ [Blank (length bl)] @ ts = us @ [Blank n]"
    proof (cases "ts = []")
      case True
      then show ?thesis by simp
    next
      case False
      with ts(2) obtain us n where "ts = us @ [Blank n]" by blast
      then have "e @ [Blank (length bl)] @ ts = (e @ [Blank (length bl)] @ us) @ [Blank n]" by simp
      then show ?thesis by blast
    qed
    moreover have "toks' = toks @ (e @ [Blank (length bl)] @ ts)"
      using ts(1) e by simp
    ultimately have 1: "\<exists>ts. toks' = toks @ ts \<and> (ts = [] \<or> (\<exists>us n. ts = us @ [Blank n]))"
      by blast
    from bs have 2: "\<exists>bs. bl' = bl @ bs" by simp
    from exec_bounds [OF Some] c have 3: "i \<le> length t \<longrightarrow> i \<le> i' \<and> i' \<le> length t"
      by simp
    from 1 2 3 show ?thesis by blast
  qed
qed

lemma parse_loop_append_no_rbracket:
  "rbracket \<notin> set v \<Longrightarrow> i \<le> length u \<Longrightarrow>
     parse_loop (u @ v) (i, toks, bl) = parse_loop u (i, toks, bl)"
proof (induction u i toks bl rule: parse_loop_induct)
  case (step u i toks bl)
  from exec_append_no_rbracket [OF step.prems] have e: "exec (u @ v) i = exec u i" .
  show ?case
  proof (cases "exec u i")
    case None
    with e show ?thesis
      by (simp add: parse_loop.simps [of "u @ v" i] parse_loop.simps [of u i])
  next
    case (Some m)
    from exec_bounds [OF Some] have b: "i \<le> index m" "index m \<le> length u"
      "regex_lastIndex m \<le> length u" by simp_all
    then have s: "slice (u @ v) i (index m) = slice u i (index m)"
      by (simp add: slice_def)
    define toks2 where
      "toks2 = (if index m > i then toks @ [Lit (slice u i (index m))] else toks) @ [Blank (length bl)]"
    have l: "parse_loop (u @ v) (i, toks, bl)
               = parse_loop (u @ v) (regex_lastIndex m, toks2, bl @ [group1 m])"
      using Some e s by (simp add: parse_loop.simps [of "u @ v" i] toks2_def)
    have r: "parse_loop u (i, toks, bl) = parse_loop u (regex_lastIndex m, toks2, bl @ [group1 m])"
      using Some by (simp add: parse_loop.simps [of u i] toks2_def)
    from step.IH [OF Some step.prems(1) b(3)]
    have "parse_loop (u @ v) (regex_lastIndex m, toks2, bl @ [group1 m])
            = parse_loop u (regex_lastIndex m, toks2, bl @ [group1 m])"
      by (simp add: toks2_def)
    with l r show ?thesis by simp
  qed
qed

lemma slice_no_span:
  assumes "\<forall>k. i \<le> k \<and> k < p \<longrightarrow> match_here (drop k t) = None"
  shows "span_here (drop j (slice t i p)) = None"
proof (cases "span_here (drop j (slice t i p))")
  case (Some g)
  let ?s = "slice t i p"
  from Some have mh: "match_here (drop j ?s) = Some g"
    by (simp add: match_here_span_here)
  then have "drop j ?s \<noteq> []" by auto
  then have j: "j < length ?s" by simp
  then have jp: "i + j < p" by (simp add: slice_def) arith
  define R where "R = drop (p - i) (drop i t)"
  have x: "drop i t = ?s @ R"
    unfolding slice_def R_def by (rule append_take_drop_id [symmetric])
  have "drop (i + j) t = drop j (drop i t)"
    by (simp add: add.commute)
  also have "\<dots> = drop j (?s @ R)"
    by (simp only: x)
  also have "\<dots> = drop j ?s @ R"
    using j by simp
  finally have "drop (i + j) t = drop j ?s @ R" .
  with match_here_prefix [OF mh] have "match_here (drop (i + j) t) = Some g" by simp
  with assms jp show ?thesis by simp
qed simp

lemma parse_loop_literals:
  "parse_loop t (i, toks, bl) = (i', toks', bl') \<Longrightarrow>
   \<forall>s j. Lit s \<in> set toks \<longrightarrow> span_here (drop j s) = None \<Longrightarrow>
     (\<forall>s j. Lit s \<in> set toks' \<longrightarrow> span_here (drop j s) = None)
     \<and> (\<forall>j. i' \<le> j \<longrightarrow> match_here (drop j t) = None)"
proof (induction t i toks bl rule: parse_loop_induct)
  case (step t i toks bl)
  show ?case
  proof (cases "exec t i")
    case None
    with step.prems exec_None [OF None] show ?thesis
      by (simp add: parse_loop.simps [of t i])
  next
    case (Some m)
    define toks2 where
      "toks2 = (if index m > i then toks @ [Lit (slice t i (index m))] else toks) @ [Blank (length bl)]"
    from Some step.prems(1)
    have rec: "parse_loop t (regex_lastIndex m, toks2, bl @ [group1 m]) = (i', toks', bl')"
      by (simp add: parse_loop.simps [of t i] toks2_def)
    from exec_Some [OF Some]
    have "\<forall>k. i \<le> k \<and> k < index m \<longrightarrow> match_here (drop k t) = None" by simp
    from slice_no_span [OF this] step.prems(2)
    have "\<forall>s j. Lit s \<in> set toks2 \<longrightarrow> span_here (drop j s) = None"
      by (auto simp: toks2_def)
    with step.IH [OF Some] rec show ?thesis
      by (simp add: toks2_def)
  qed
qed

lemma parseTranscript_literals:
  assumes "Lit s \<in> set (fst (parseTranscript T))"
  shows "span_here (drop j s) = None"
proof -
  obtain i' toks' bl' where p: "parse_loop T (0, [], []) = (i', toks', bl')"
    by (cases "parse_loop T (0, [], [])") auto
  from parse_loop_literals [OF p]
  have a: "\<forall>s j. Lit s \<in> set toks' \<longrightarrow> span_here (drop j s) = None"
    and b: "\<forall>j. i' \<le> j \<longrightarrow> match_here (drop j T) = None"
    by simp_all
  from assms p have "Lit s \<in> set toks' \<or> s = drop i' T"
    by (auto simp: parseTranscript_def slice_from_def split: if_splits)
  then show ?thesis
  proof
    assume "Lit s \<in> set toks'"
    with a show ?thesis by simp
  next
    assume s: "s = drop i' T"
    from b have "match_here (drop (i' + j) T) = None" by simp
    then show ?thesis by (simp add: s match_here_span_here add.commute)
  qed
qed

lemma parseTranscript_append_text:
  assumes "rbracket \<notin> set v" "v \<noteq> []"
  shows "\<exists>ts w. parseTranscript (u @ v) = (ts @ [Lit (w @ v)], snd (parseTranscript u))
           \<and> fst (parseTranscript u) = (if w = [] then ts else ts @ [Lit w])"
proof -
  obtain i' toks' bl' where p: "parse_loop u (0, [], []) = (i', toks', bl')"
    by (cases "parse_loop u (0, [], [])") auto
  from parse_loop_append_no_rbracket [OF assms(1), of 0 u "[]" "[]"] p
  have q: "parse_loop (u @ v) (0, [], []) = (i', toks', bl')" by simp
  from parse_loop_grows [OF p] have le: "i' \<le> length u" by simp
  have "i' < length (u @ v)"
    using le assms(2) by (cases v) simp_all
  with le have 1: "parseTranscript (u @ v) = (toks' @ [Lit (drop i' u @ v)], bl')"
    by (simp add: parseTranscript_def q slice_from_def)
  have 2: "parseTranscript u = (if drop i' u = [] then toks' else toks' @ [Lit (drop i' u)], bl')"
    using le by (simp add: parseTranscript_def p slice_from_def)
  from 1 2 show ?thesis by auto
qed

lemma match_nth:
  assumes "match_here (drop j t) = Some g"
  shows "j + length g + 1 < length t \<and> t ! j = lbracket \<and> t ! (j + length g + 1) = rbracket
     \<and> (\<forall>k<length g. t ! (j + 1 + k) = g ! k)"
proof -
  let ?d = "drop j t"
  from match_here_drop [OF assms] obtain R where d: "?d = lbracket # g @ rbracket # R"
    by blast
  then have "length ?d = length g + 2 + length R" by simp
  then have l: "j + length g + 1 < length t" by simp
  have n: "?d ! n = t ! (j + n)" if "j + n < length t" for n
    using that by simp
  from l n [of 0] d have 1: "t ! j = lbracket" by simp
  from l n [of "length g + 1"] d have 2: "t ! (j + length g + 1) = rbracket"
    by (simp add: nth_append)
  have 3: "t ! (j + 1 + k) = g ! k" if "k < length g" for k
  proof -
    from that l have "j + (1 + k) < length t" by simp
    from n [OF this] d that show ?thesis by (simp add: nth_append)
  qed
  from l 1 2 3 show ?thesis by blast
qed

lemma nth_in_set_drop:
  assumes "n \<le> k" "k < length xs"
  shows "xs ! k \<in> set (drop n xs)"
proof -
  from assms have "drop n xs ! (k - n) = xs ! k" "k - n < length (drop n xs)"
    by simp_all
  then show ?thesis by (metis nth_mem)
qed

lemma exec_append_stable:
  assumes "exec pre i = Some m"
  shows "exec (pre @ S) i = Some m"
proof -
  from exec_bounds [OF assms] have b: "i \<le> index m" "regex_lastIndex m \<le> length pre"
    by simp_all
  from exec_Some [OF assms] have mh: "match_here (drop (index m) pre) = Some (group1 m)"
    and li: "regex_lastIndex m = index m + length (group1 m) + 2"
    and no: "\<forall>j. i \<le> j \<and> j < index m \<longrightarrow> match_here (drop j pre) = None" by simp_all
  from match_nth [OF mh] have r: "index m + length (group1 m) + 1 < length pre"
    "pre ! (index m + length (group1 m) + 1) = rbracket" by simp_all
  from match_here_length [OF mh] have g: "group1 m \<noteq> []" by simp
  have st: "match_here (drop k (pre @ S)) = match_here (drop k pre)" if "k \<le> index m" for k
  proof -
    from that g have "k + 2 \<le> index m + length (group1 m) + 1"
      by (cases "group1 m") simp_all
    from nth_in_set_drop [OF this r(1)] r(2) have "rbracket \<in> set (drop 2 (drop k pre))"
      by (simp add: add.commute)
    from match_here_append_stable [OF this, of S] that r(1) show ?thesis by simp
  qed
  have 1: "\<forall>k. i \<le> k \<and> k < index m \<longrightarrow> match_here (drop k (pre @ S)) = None"
    using no st by simp
  have 2: "match_here (drop (index m) (pre @ S)) = Some (group1 m)"
    using mh st by simp
  from exec_first [OF b(1) 1 2] li show ?thesis by simp
qed

lemma parse_loop_prefix:
  "parse_loop (pre @ S) (i, toks, bl) = parse_loop (pre @ S) (parse_loop pre (i, toks, bl))"
proof (induction pre i toks bl rule: parse_loop_induct)
  case (step pre i toks bl)
  show ?case
  proof (cases "exec pre i")
    case None
    then show ?thesis by (simp add: parse_loop.simps [of pre i])
  next
    case (Some m)
    from exec_bounds [OF Some] have b: "i \<le> index m" "index m \<le> length pre" by simp_all
    then have s: "slice (pre @ S) i (index m) = slice pre i (index m)"
      by (simp add: slice_def)
    define toks2 where
      "toks2 = (if index m > i then toks @ [Lit (slice pre i (index m))] else toks) @ [Blank (length bl)]"
    have l: "parse_loop (pre @ S) (i, toks, bl)
               = parse_loop (pre @ S) (regex_lastIndex m, toks2, bl @ [group1 m])"
      using exec_append_stable [OF Some, of S] s
      by (simp add: parse_loop.simps [of "pre @ S" i] toks2_def)
    have r: "parse_loop pre (i, toks, bl) = parse_loop pre (regex_lastIndex m, toks2, bl @ [group1 m])"
      using Some by (simp add: parse_loop.simps [of pre i] toks2_def)
    from step.IH [OF Some]
    have "parse_loop (pre @ S) (regex_lastIndex m, toks2, bl @ [group1 m])
            = parse_loop (pre @ S) (parse_loop pre (regex_lastIndex m, toks2, bl @ [group1 m]))"
      by (simp add: toks2_def)
    with l r show ?thesis by simp
  qed
qed

lemma trailing_text_parse:
  assumes "parse_loop T (0, [], []) = (i', toks', bl')"
  shows "trailing_text (fst (parseTranscript T)) = drop i' T"
proof (cases "i' < length T")
  case True
  with assms show ?thesis
    by (simp add: parseTranscript_def slice_from_def trailing_text_def)
next
  case False
  from parse_loop_grows [OF assms] have "toks' = [] \<or> (\<exists>us n. toks' = us @ [Blank n])"
    by simp
  then have "trailing_text toks' = []"
    by (auto simp: trailing_text_def)
  with False assms show ?thesis
    by (simp add: parseTranscript_def)
qed

lemma slice_split:
  assumes "i \<le> a" "a \<le> b"
  shows "slice t i b = slice t i a @ slice t a b"
proof -
  have "take (b - i) (drop i t) = take ((a - i) + (b - a)) (drop i t)"
    using assms by simp
  also have "\<dots> = take (a - i) (drop i t) @ take (b - a) (drop (a - i) (drop i t))"
    by (rule take_add)
  also have "drop (a - i) (drop i t) = drop a t"
    using assms by simp
  finally show ?thesis
    by (simp add: slice_def)
qed

lemma drop_split:
  assumes "i \<le> a"
  shows "drop i t = slice t i a @ drop a t"
proof -
  have "drop i t = take (a - i) (drop i t) @ drop (a - i) (drop i t)"
    by (rule append_take_drop_id [symmetric])
  also have "drop (a - i) (drop i t) = drop a t"
    using assms by simp
  finally show ?thesis
    by (simp add: slice_def)
qed

lemma region_literal:
  "parse_loop t (i, toks, bl) = (i', toks', bl') \<Longrightarrow> i \<le> a \<Longrightarrow> a < b \<Longrightarrow> b \<le> length t \<Longrightarrow>
   \<forall>j g. i \<le> j \<and> match_here (drop j t) = Some g \<longrightarrow> j + length g + 2 \<le> a \<or> b \<le> j \<Longrightarrow>
     \<exists>ts1 s1 s2 ts2.
        (if i' < length t then toks' @ [Lit (slice_from t i')] else toks')
          = toks @ ts1 @ Lit (s1 @ slice t a b @ s2) # ts2"
proof (induction t i toks bl rule: parse_loop_induct)
  case (step t i toks bl)
  note ab = \<open>a < b\<close> \<open>b \<le> length t\<close>
  show ?case
  proof (cases "exec t i")
    case None
    with step.prems(1) have e: "i' = i" "toks' = toks"
      by (simp_all add: parse_loop.simps [of t i])
    from step.prems(2) ab have lt: "i < length t" by simp
    from ab have "a \<le> b" by simp
    from drop_split [OF step.prems(2), of t] drop_split [OF this, of t]
    have "drop i t = slice t i a @ slice t a b @ drop b t" by simp
    with e lt have "(if i' < length t then toks' @ [Lit (slice_from t i')] else toks')
          = toks @ [] @ Lit (slice t i a @ slice t a b @ drop b t) # []"
      by (simp add: slice_from_def)
    then show ?thesis by blast
  next
    case (Some m)
    define toks2 where
      "toks2 = (if index m > i then toks @ [Lit (slice t i (index m))] else toks) @ [Blank (length bl)]"
    from Some step.prems(1)
    have rec: "parse_loop t (regex_lastIndex m, toks2, bl @ [group1 m]) = (i', toks', bl')"
      by (simp add: parse_loop.simps [of t i] toks2_def)
    from exec_bounds [OF Some] have b: "i \<le> index m" "i \<le> regex_lastIndex m" by simp_all
    from exec_Some [OF Some] have mh: "match_here (drop (index m) t) = Some (group1 m)"
      and li: "regex_lastIndex m = index m + length (group1 m) + 2" by simp_all
    from step.prems(5) b(1) mh li have "regex_lastIndex m \<le> a \<or> b \<le> index m"
      by auto
    then show ?thesis
    proof
      assume le: "regex_lastIndex m \<le> a"
      have h: "\<forall>j g. regex_lastIndex m \<le> j \<and> match_here (drop j t) = Some g
                 \<longrightarrow> j + length g + 2 \<le> a \<or> b \<le> j"
        using step.prems(5) b(2) by auto
      from step.IH [OF Some _ le ab h] rec obtain ts1 s1 s2 ts2 where
        "(if i' < length t then toks' @ [Lit (slice_from t i')] else toks')
           = toks2 @ ts1 @ Lit (s1 @ slice t a b @ s2) # ts2"
        by (auto simp: toks2_def)
      moreover obtain e where "toks2 = toks @ e"
        by (cases "index m > i") (simp_all add: toks2_def)
      ultimately have "(if i' < length t then toks' @ [Lit (slice_from t i')] else toks')
           = toks @ (e @ ts1) @ Lit (s1 @ slice t a b @ s2) # ts2"
        by simp
      then show ?thesis by blast
    next
      assume ge: "b \<le> index m"
      with step.prems(2) ab have gt: "i < index m" and ai: "a \<le> index m" by simp_all
      from ge ab have ab': "a \<le> b" by simp
      from slice_split [OF step.prems(2) ai, of t] slice_split [OF ab' ge, of t]
      have s: "slice t i (index m) = slice t i a @ slice t a b @ slice t b (index m)"
        by simp
      from parse_loop_grows [OF rec] obtain ts where "toks' = toks2 @ ts" by blast
      then obtain ts' where
        "(if i' < length t then toks' @ [Lit (slice_from t i')] else toks') = toks2 @ ts'"
        by (cases "i' < length t") simp_all
      with gt s have "(if i' < length t then toks' @ [Lit (slice_from t i')] else toks')
           = toks @ [] @ Lit (slice t i a @ slice t a b @ slice t b (index m))
               # (Blank (length bl) # ts')"
        by (simp add: toks2_def)
      then show ?thesis by blast
    qed
  qed
qed

lemma lt_not_bracket:
  "isLineTerminator x \<Longrightarrow> x \<noteq> lbracket \<and> x \<noteq> rbracket"
  by (auto simp: isLineTerminator_def lbracket_def rbracket_def)

lemma pair_region:
  assumes "list_all not_bracket c" "k < length c + 2"
  shows "((pre @ lbracket # c @ rbracket # post) ! (length pre + k) = lbracket \<longrightarrow> k = 0)
     \<and> ((pre @ lbracket # c @ rbracket # post) ! (length pre + k) = rbracket \<longrightarrow> k = length c + 1)"
proof -
  have lr: "lbracket \<noteq> rbracket" by (simp add: lbracket_def rbracket_def)
  have T: "(pre @ lbracket # c @ rbracket # post) ! (length pre + k)
             = (lbracket # c @ rbracket # post) ! k"
    by (simp only: nth_append_length_plus)
  show ?thesis
  proof (cases k)
    case 0
    with T lr show ?thesis by simp
  next
    case (Suc k')
    show ?thesis
    proof (cases "k' < length c")
      case True
      then have "c ! k' \<in> set c" by simp
      with assms(1) have "not_bracket (c ! k')" by (simp add: list_all_iff)
      moreover from True have "(lbracket # c @ rbracket # post) ! Suc k' = c ! k'"
        by (simp add: nth_append)
      ultimately show ?thesis
        using T Suc by (simp add: not_bracket_def)
    next
      case False
      with assms(2) Suc have k': "k' = length c" by simp
      then have "(lbracket # c @ rbracket # post) ! Suc k' = rbracket"
        by (simp add: nth_append)
      with lr k' show ?thesis
        using T Suc by simp
    qed
  qed
qed

lemma line_break_pair_no_overlap:
  assumes c: "list_all not_bracket c" "\<exists>x \<in> set c. isLineTerminator x"
    and mh: "match_here (drop j (pre @ lbracket # c @ rbracket # post)) = Some g"
  shows "j + length g + 2 \<le> length pre \<or> length pre + length c + 2 \<le> j"
proof (rule ccontr)
  let ?T = "pre @ lbracket # c @ rbracket # post"
  let ?a = "length pre"
  let ?b = "length pre + length c + 2"
  assume "\<not> (j + length g + 2 \<le> ?a \<or> ?b \<le> j)"
  then have o: "?a < j + length g + 2" "j < ?b" by simp_all
  from match_nth [OF mh] have n: "?T ! j = lbracket" "?T ! (j + length g + 1) = rbracket"
    "\<forall>k<length g. ?T ! (j + 1 + k) = g ! k" by simp_all
  from match_here_Some [OF mh] have g: "\<forall>x \<in> set g. \<not> isLineTerminator x" by simp
  from c(2) obtain kx where kx: "kx < length c" "isLineTerminator (c ! kx)"
    by (auto simp: in_set_conv_nth)
  let ?q = "?a + 1 + kx"
  have q: "?T ! ?q = c ! kx"
    using kx(1) by (simp add: nth_append)
  have 1: "j \<le> ?a"
  proof (cases "?a \<le> j")
    case True
    then obtain k where k: "j = ?a + k" by (auto simp: le_iff_add)
    with o(2) have "k < length c + 2" by simp
    from pair_region [OF c(1) this, of pre post] n(1) have "k = 0"
      unfolding k by blast
    with k show ?thesis by simp
  next
    case False
    then show ?thesis by simp
  qed
  have 2: "?q < j + length g + 1"
  proof (cases "j + length g + 1 < ?b")
    case True
    from o(1) have "?a \<le> j + length g + 1" by simp
    then obtain k where k: "j + length g + 1 = ?a + k" by (auto simp: le_iff_add)
    with True have "k < length c + 2" by simp
    from pair_region [OF c(1) this, of pre post] n(2) have "k = length c + 1"
      unfolding k by blast
    with k kx(1) show ?thesis by simp
  next
    case False
    with kx(1) show ?thesis by simp
  qed
  from 1 2 have k: "?q - j - 1 < length g" "j + 1 + (?q - j - 1) = ?q" by simp_all
  with n(3) have "?T ! ?q = g ! (?q - j - 1)" by metis
  with q k(1) have "c ! kx \<in> set g" by (metis nth_mem)
  with g kx(2) show False by blast
qed

lemma line_break_pair_literal:
  assumes "list_all not_bracket c" "\<exists>x \<in> set c. isLineTerminator x"
  shows "\<exists>ts1 s1 s2 ts2. fst (parseTranscript (pre @ lbracket # c @ rbracket # post))
           = ts1 @ Lit (s1 @ lbracket # c @ rbracket # s2) # ts2"
proof -
  let ?T = "pre @ lbracket # c @ rbracket # post"
  obtain i' toks' bl' where p: "parse_loop ?T (0, [], []) = (i', toks', bl')"
    by (cases "parse_loop ?T (0, [], [])") auto
  have h: "\<forall>j g. 0 \<le> j \<and> match_here (drop j ?T) = Some g
             \<longrightarrow> j + length g + 2 \<le> length pre \<or> length pre + length c + 2 \<le> j"
    using line_break_pair_no_overlap [OF assms] by blast
  have s: "slice ?T (length pre) (length pre + length c + 2) = lbracket # c @ [rbracket]"
    by (simp add: slice_def)
  from region_literal [OF p _ _ _ h] obtain ts1 s1 s2 ts2 where
    "(if i' < length ?T then toks' @ [Lit (slice_from ?T i')] else toks')
       = ts1 @ Lit (s1 @ (lbracket # c @ [rbracket]) @ s2) # ts2"
    unfolding s by auto
  with p have "fst (parseTranscript ?T) = ts1 @ Lit (s1 @ lbracket # c @ rbracket # s2) # ts2"
    by (simp add: parseTranscript_def split: if_splits)
  then show ?thesis by blast
qed

lemma lazy_dots_blocked:
  "rbracket \<notin> set mid \<Longrightarrow> list_all isLineTerminator (take 1 rest) \<Longrightarrow>
     lazy_dots (mid @ rest) = None"
proof (induction mid)
  case Nil
  then show ?case
    by (cases rest) (auto dest: lt_not_bracket)
next
  case (Cons c mid)
  then show ?case by auto
qed

lemma no_match_in_trailing_text:
  assumes "lbracket \<notin> set (drop i0 pre)" "i0 \<le> k" "k < length pre"
  shows "match_here (drop k (pre @ S)) = None"
proof (cases "match_here (drop k (pre @ S))")
  case (Some g)
  from match_nth [OF Some] assms(3) have "pre ! k = lbracket"
    by (simp add: nth_append)
  with nth_in_set_drop [OF assms(2,3)] assms(1) show ?thesis by simp
qed simp

lemma parse_via_prefix:
  assumes "parse_loop pre (0, [], []) = (i0, toks0, bl0)"
  shows "parse_loop (pre @ S) (0, [], []) = parse_loop (pre @ S) (i0, toks0, bl0)"
    and "i0 \<le> length pre"
    and "trailing_text (fst (parseTranscript pre)) = drop i0 pre"
    and "snd (parseTranscript pre) = bl0"
proof -
  from parse_loop_prefix [of pre S 0 "[]" "[]"] assms
  show "parse_loop (pre @ S) (0, [], []) = parse_loop (pre @ S) (i0, toks0, bl0)" by simp
  from parse_loop_grows [OF assms] show "i0 \<le> length pre" by simp
  from trailing_text_parse [OF assms]
  show "trailing_text (fst (parseTranscript pre)) = drop i0 pre" .
  from assms show "snd (parseTranscript pre) = bl0"
    by (simp add: parseTranscript_def)
qed

lemma empty_pair_literal:
  assumes "lbracket \<notin> set (trailing_text (fst (parseTranscript pre)))"
    "rbracket \<notin> set mid" "list_all isLineTerminator (take 1 rest)"
  shows "\<exists>ts1 s1 s2 ts2. fst (parseTranscript (pre @ lbracket # rbracket # mid @ rest))
           = ts1 @ Lit (s1 @ lbracket # rbracket # s2) # ts2"
proof -
  let ?S = "lbracket # rbracket # mid @ rest"
  let ?T = "pre @ ?S"
  let ?a = "length pre"
  obtain i0 toks0 bl0 where p0: "parse_loop pre (0, [], []) = (i0, toks0, bl0)"
    by (cases "parse_loop pre (0, [], [])") auto
  note v = parse_via_prefix(1) [OF p0, of ?S] parse_via_prefix(2-4) [OF p0]
  obtain i' toks' bl' where p: "parse_loop ?T (i0, toks0, bl0) = (i', toks', bl')"
    by (cases "parse_loop ?T (i0, toks0, bl0)") auto
  from assms(1) v(3) have tr: "lbracket \<notin> set (drop i0 pre)" by simp
  have here: "match_here (drop ?a ?T) = None"
    using lazy_dots_blocked [OF assms(2,3)] by simp
  have lr: "rbracket \<noteq> lbracket" by (simp add: lbracket_def rbracket_def)
  have h: "\<forall>j g. i0 \<le> j \<and> match_here (drop j ?T) = Some g
             \<longrightarrow> j + length g + 2 \<le> ?a \<or> ?a + 2 \<le> j"
  proof (intro allI impI)
    fix j g assume a: "i0 \<le> j \<and> match_here (drop j ?T) = Some g"
    have "\<not> j < ?a"
      using a no_match_in_trailing_text [OF tr, of j ?S] by auto
    moreover have "j \<noteq> ?a"
      using a here by auto
    moreover have "j \<noteq> ?a + 1"
    proof
      assume "j = ?a + 1"
      with a match_nth [of j ?T g] have "?T ! (?a + 1) = lbracket" by simp
      with lr show False by (simp add: nth_append)
    qed
    ultimately show "j + length g + 2 \<le> ?a \<or> ?a + 2 \<le> j" by arith
  qed
  have s: "slice ?T ?a (?a + 2) = [lbracket, rbracket]"
    by (simp add: slice_def)
  from region_literal [OF p v(2) _ _ h] obtain ts1 s1 s2 ts2 where
    "(if i' < length ?T then toks' @ [Lit (slice_from ?T i')] else toks')
       = toks0 @ ts1 @ Lit (s1 @ [lbracket, rbracket] @ s2) # ts2"
    unfolding s by auto
  with p v(1) have "fst (parseTranscript ?T)
       = (toks0 @ ts1) @ Lit (s1 @ lbracket # rbracket # s2) # ts2"
    by (simp add: parseTranscript_def split: if_splits)
  then show ?thesis by blast
qed

lemma empty_pair_blank:
  assumes "lbracket \<notin> set (trailing_text (fst (parseTranscript pre)))"
    "rbracket \<notin> set mid" "\<forall>x \<in> set mid. \<not> isLineTerminator x"
  shows "\<exists>bs. snd (parseTranscript (pre @ lbracket # rbracket # mid @ rbracket # rest))
           = snd (parseTranscript pre) @ (rbracket # mid) # bs"
proof -
  let ?S = "lbracket # rbracket # mid @ rbracket # rest"
  let ?T = "pre @ ?S"
  let ?a = "length pre"
  let ?g = "rbracket # mid"
  obtain i0 toks0 bl0 where p0: "parse_loop pre (0, [], []) = (i0, toks0, bl0)"
    by (cases "parse_loop pre (0, [], [])") auto
  note v = parse_via_prefix(1) [OF p0, of ?S] parse_via_prefix(2-4) [OF p0]
  from assms(1) v(3) have tr: "lbracket \<notin> set (drop i0 pre)" by simp
  have 1: "\<forall>k. i0 \<le> k \<and> k < ?a \<longrightarrow> match_here (drop k ?T) = None"
    using no_match_in_trailing_text [OF tr] by blast
  have "\<not> isLineTerminator rbracket"
    using lt_not_bracket by blast
  with assms(2,3) match_here_complete [of ?g rest]
  have 2: "match_here (drop ?a ?T) = Some ?g" by simp
  from exec_first [OF v(2) 1 2]
  have e: "exec ?T i0 = Some \<lparr>index = ?a, group1 = ?g, regex_lastIndex = ?a + length ?g + 2\<rparr>" .
  obtain i' toks' bl' where p: "parse_loop ?T (0, [], []) = (i', toks', bl')"
    by (cases "parse_loop ?T (0, [], [])") auto
  with v(1) e obtain toks2 where
    "parse_loop ?T (?a + length ?g + 2, toks2, bl0 @ [?g]) = (i', toks', bl')"
    by (simp add: parse_loop.simps [of ?T i0])
  from parse_loop_grows [OF this] obtain bs where "bl' = (bl0 @ [?g]) @ bs" by blast
  with p v(4) have "snd (parseTranscript ?T) = snd (parseTranscript pre) @ ?g # bs"
    by (simp add: parseTranscript_def)
  then show ?thesis by blast
qed

section \<open>Properties of the session handlers\<close>

lemma isCorrect_graded:
  "i < length (blanks q) \<Longrightarrow> isCorrect lc q s i = Inr (graded lc q s i)"
  by (simp add: isCorrect_def graded_def split: option.splits)

lemma check_loop_count:
  "i \<le> length (blanks q) \<Longrightarrow>
     check_loop lc q s i c = Inr (c + length (filter (graded lc q s) [i..<length (blanks q)]))"
proof (induction lc q s i c rule: check_loop.induct)
  case (1 lc q s i c)
  show ?case
  proof (cases "i < length (blanks q)")
    case True
    then have u: "[i..<length (blanks q)] = i # [Suc i..<length (blanks q)]"
      by (simp add: upt_conv_Cons)
    from True have "Suc i \<le> length (blanks q)" by simp
    from "1.IH" [OF True isCorrect_graded [OF True] this] True
    show ?thesis
      by (simp add: check_loop.simps [of lc q s i] isCorrect_graded u)
  next
    case False
    then have "check_loop lc q s i c = Inr c"
      by (subst check_loop.simps) simp
    with False show ?thesis by simp
  qed
qed

lemma handleCheck_result:
  "handleCheck lc q s =
     Inr (s\<lparr>score := length (filter (graded lc q s) [0..<length (blanks q)]), checked := True\<rparr>)"
  by (simp add: handleCheck_def check_loop_count)

lemma fold_filled:
  "fold (\<lambda>(i, ans) m. m(i \<mapsto> ans)) (enumerate n bs) m0 k
     = (if n \<le> k \<and> k < n + length bs then Some (bs ! (k - n)) else m0 k)"
proof (induction bs arbitrary: n m0)
  case Nil
  show ?case by auto
next
  case (Cons b bs)
  let ?f = "\<lambda>(i, ans) m. m(i \<mapsto> ans)"
  have "fold ?f (enumerate n (b # bs)) m0 k = fold ?f (enumerate (Suc n) bs) (m0(n \<mapsto> b)) k"
    by simp
  also have "\<dots> = (if Suc n \<le> k \<and> k < Suc n + length bs then Some (bs ! (k - Suc n))
                    else (m0(n \<mapsto> b)) k)"
    by (rule Cons.IH)
  also have "\<dots> = (if n \<le> k \<and> k < n + length (b # bs) then Some ((b # bs) ! (k - n)) else m0 k)"
    by (auto simp: nth_Cons' Suc_diff_le)
  finally show ?case .
qed

lemma filled_lookup:
  "filled bs k = (if k < length bs then Some (bs ! k) else None)"
  by (simp add: filled_def fold_filled)

text \<open>
  \<open>handleCheck\<close> itself has no guard: called on a checked session it computes the score
  again. Only its two callers are guarded.
\<close>

lemma handleCheck_unguarded:
  "checked revealed \<and> score revealed = 0
   \<and> handleCheck lowerASCII paris revealed = Inr (revealed\<lparr>score := 2, checked := True\<rparr>)"
proof -
  have "length (filter (graded lowerASCII paris revealed) [0..<length (blanks paris)]) = 2"
    by code_simp
  then show ?thesis
    by (simp add: handleCheck_result) (simp add: revealed_def handleShowAnswers_def startQuestion_def)
qed

section \<open>Properties of the decimal digits\<close>

lemma digit_inj:
  assumes "d < 10" "e < 10" "digit d = digit e"
  shows "d = e"
proof -
  have u: "unat (digit k) = 48 + k" if "k < 10" for k
    using that unfolding digit_def by (simp only: unat_of_nat) simp
  from assms(3) have "unat (digit d) = unat (digit e)" by (rule arg_cong)
  then have "48 + d = 48 + e"
    by (simp only: u [OF assms(1)] u [OF assms(2)])
  then show ?thesis by (simp only: add_left_cancel)
qed

lemma numberToString_nonempty:
  "numberToString n \<noteq> []"
  by (subst numberToString.simps) simp

lemma numberToString_inj:
  "numberToString n = numberToString m \<Longrightarrow> n = m"
proof (induction n arbitrary: m rule: numberToString.induct)
  case (1 n)
  show ?case
  proof (cases "n < 10")
    case True
    show ?thesis
    proof (cases "m < 10")
      case m: True
      from "1.prems" True m have "digit n = digit m"
        by (simp add: numberToString.simps [of n] numberToString.simps [of m])
      from digit_inj [OF True m this] show ?thesis .
    next
      case m: False
      from "1.prems" True m have "[digit n] = numberToString (m div 10) @ [digit (m mod 10)]"
        by (simp add: numberToString.simps [of n] numberToString.simps [of m])
      then have "numberToString (m div 10) = []" by simp
      with numberToString_nonempty show ?thesis by simp
    qed
  next
    case False
    show ?thesis
    proof (cases "m < 10")
      case m: True
      from "1.prems" False m have "numberToString (n div 10) @ [digit (n mod 10)] = [digit m]"
        by (simp add: numberToString.simps [of n] numberToString.simps [of m])
      then have "numberToString (n div 10) = []" by simp
      with numberToString_nonempty show ?thesis by simp
    next
      case m: False
      from "1.prems" False m
      have "numberToString (n div 10) @ [digit (n mod 10)]
              = numberToString (m div 10) @ [digit (m mod 10)]"
        by (simp add: numberToString.simps [of n] numberToString.simps [of m])
      then have a: "numberToString (n div 10) = numberToString (m div 10)"
        and b: "digit (n mod 10) = digit (m mod 10)"
        by simp_all
      from "1.IH" [OF False a] have d: "n div 10 = m div 10" .
      have "n mod 10 < 10" "m mod 10 < 10" by simp_all
      from digit_inj [OF this b] have r: "n mod 10 = m mod 10" .
      have "n = n div 10 * 10 + n mod 10" by simp
      also have "\<dots> = m div 10 * 10 + m mod 10" by (simp only: d r)
      also have "\<dots> = m" by simp
      finally show ?thesis .
    qed
  qed
qed

section \<open>The claims\<close>

text \<open>
  C3. Rendering the parse result (string tokens as they are, every blank's answer in
  brackets, in token order) gives the transcript back. The parser keeps everything it
  does not recognise as literal text, so this holds for every transcript, well-formed
  or not.
\<close>

theorem parseTranscript_roundtrip:
  "editableTranscript (fst (parseTranscript T)) (snd (parseTranscript T)) = T"
proof -
  obtain i' toks' bl' where p: "parse_loop T (0, [], []) = (i', toks', bl')"
    by (cases "parse_loop T (0, [], [])") auto
  from parse_loop_editable [OF p]
  have e: "editableTranscript toks' bl' @ drop i' T = T"
    by (simp add: editableTranscript_def)
  show ?thesis
  proof (cases "i' < length T")
    case True
    with p e show ?thesis
      by (simp add: parseTranscript_def editableTranscript_append slice_from_def)
         (simp add: editableTranscript_def tokenText_def)
  next
    case False
    with p e show ?thesis
      by (simp add: parseTranscript_def)
  qed
qed

text \<open>
  C7. The claim counts the well-formed bracket spans of the transcript. The parser
  counts the spans of its expression, whose content may begin with a closing bracket:
  \<open>[]a]\<close> has no well-formed span and gives one placeholder, with the answer \<open>]a\<close>.
\<close>

theorem parseTranscript_total_counterexample:
  "parseTranscript (js ''[]a]'') = ([Blank 0], [js '']a''])
   \<and> length (blank_indices (fst (parseTranscript (js ''[]a]'')))) = 1
   \<and> well_formed_spans (js ''[]a]'') = 0"
  by code_simp

text \<open>
  C7, as the code has it. The parser is total: on every string the loop ends (the
  termination proofs of \<open>exec\<close> and \<open>parse_loop\<close>) and returns tokens and blanks. The
  placeholders are \<open>Blank 0\<close>, \<open>Blank 1\<close>, ... in this order, one for each blank. Their
  number is the number of spans of the string read from left to right, where a span is
  an opening bracket, a first code unit of content, the code units up to the next
  closing bracket and that bracket, without a line terminator in the content; and the
  string tokens, with every placeholder replaced by its answer, are the string without
  the two markers of each of these spans. On a transcript whose brackets are
  well-formed (text without brackets around well-formed spans without line
  terminator) this is the number of well-formed spans, and the transcript without
  its brackets.
\<close>

theorem parseTranscript_total:
  "(\<exists>toks bl. parseTranscript T = (toks, bl)
      \<and> blank_indices toks = [0..<length bl]
      \<and> length (blank_indices toks) = span_count T
      \<and> fill_blanks toks bl = strip_markers T)
   \<and> (wf_parts segs t \<longrightarrow>
        length (blank_indices (fst (parseTranscript (wf_transcript segs t))))
          = well_formed_spans (wf_transcript segs t)
        \<and> fill_blanks (fst (parseTranscript (wf_transcript segs t)))
              (snd (parseTranscript (wf_transcript segs t)))
          = without_brackets (wf_transcript segs t))"
proof -
  have 1: "\<exists>toks bl. parseTranscript T = (toks, bl)
      \<and> blank_indices toks = [0..<length bl]
      \<and> length (blank_indices toks) = span_count T
      \<and> fill_blanks toks bl = strip_markers T" for T
  proof -
    obtain i' toks' bl' where p: "parse_loop T (0, [], []) = (i', toks', bl')"
      by (cases "parse_loop T (0, [], [])") auto
    have e: "blank_indices [] = [0..<length ([] :: jsstring list)]" "fill_blanks [] [] = []"
      by (simp_all add: blank_indices_def fill_blanks_def)
    from parse_loop_spans [OF p e(1)] e(2)
    have bi: "blank_indices toks' = [0..<length bl']"
      and n: "length bl' = span_count T"
      and f: "fill_blanks toks' bl' @ drop i' T = strip_markers T"
      by simp_all
    define toks where
      "toks = (if i' < length T then toks' @ [Lit (slice_from T i')] else toks')"
    have pt: "parseTranscript T = (toks, bl')"
      by (simp add: parseTranscript_def p toks_def)
    have b: "blank_indices toks = [0..<length bl']"
      using bi by (simp add: toks_def blank_indices_append) (simp add: blank_indices_def)
    have l: "fill_blanks [Lit (drop i' T)] bl' = drop i' T"
      by (simp add: fill_blanks_def)
    have c: "fill_blanks toks bl' = strip_markers T"
    proof (cases "i' < length T")
      case True
      with f l show ?thesis
        by (simp add: toks_def fill_blanks_append slice_from_def)
    next
      case False
      then have "drop i' T = []" by simp
      with f False show ?thesis by (simp add: toks_def)
    qed
    from pt b c n show ?thesis by simp
  qed
  have 2: "length (blank_indices (fst (parseTranscript (wf_transcript segs t))))
          = well_formed_spans (wf_transcript segs t)
        \<and> fill_blanks (fst (parseTranscript (wf_transcript segs t)))
              (snd (parseTranscript (wf_transcript segs t)))
          = without_brackets (wf_transcript segs t)"
    if w: "wf_parts segs t"
  proof -
    from 1 [of "wf_transcript segs t"] obtain toks bl
      where "parseTranscript (wf_transcript segs t) = (toks, bl)"
        and "length (blank_indices toks) = span_count (wf_transcript segs t)"
        and "fill_blanks toks bl = strip_markers (wf_transcript segs t)"
      by blast
    with wf_transcript_spans [OF w] wf_transcript_well_formed_spans [OF w]
    show ?thesis by simp
  qed
  from 1 [of T] 2 show ?thesis by blast
qed

theorem parseTranscript_total_witness:
  "wf_parts two_spans (js ''g'')
   \<and> wf_transcript two_spans (js ''g'') = js ''ab [cd] e[f]g''
   \<and> length (blank_indices (fst (parseTranscript (js ''ab [cd] e[f]g'')))) = 2
   \<and> well_formed_spans (js ''ab [cd] e[f]g'') = 2
   \<and> fill_blanks (fst (parseTranscript (js ''ab [cd] e[f]g'')))
         (snd (parseTranscript (js ''ab [cd] e[f]g''))) = js ''ab cd efg''"
proof -
  have w: "wf_parts two_spans (js ''g'')"
    by code_simp
  have t: "wf_transcript two_spans (js ''g'') = js ''ab [cd] e[f]g''"
    by code_simp
  have n: "well_formed_spans (js ''ab [cd] e[f]g'') = 2"
    by code_simp
  have b: "without_brackets (js ''ab [cd] e[f]g'') = js ''ab cd efg''"
    by code_simp
  from parseTranscript_total [of _ two_spans "js ''g''"] w
  have "length (blank_indices (fst (parseTranscript (wf_transcript two_spans (js ''g'')))))
          = well_formed_spans (wf_transcript two_spans (js ''g''))
        \<and> fill_blanks (fst (parseTranscript (wf_transcript two_spans (js ''g''))))
              (snd (parseTranscript (wf_transcript two_spans (js ''g''))))
          = without_brackets (wf_transcript two_spans (js ''g''))"
    by blast
  with w t n b show ?thesis by simp
qed

text \<open>
  C4. The claim says that the content of a recognised span contains no bracket and
  that text with an unbalanced bracket is never part of a span. The expression is
  \<open>.+?\<close>, which takes any code unit that is not a line terminator: in \<open>[a[b]\<close> the
  span is the whole string and its content is \<open>a[b\<close>.
\<close>

theorem span_rule_counterexample:
  "snd (parseTranscript (js ''[a[b]'')) = [js ''a[b''] \<and> lbracket \<in> set (js ''a[b'')"
  by code_simp

text \<open>
  C4, as the code has it. Every blank is the content of a span of the transcript:
  it is not empty, has no line terminator and has no closing bracket after its first
  code unit, so the span ends at the first closing bracket that follows at least one
  code unit of content (the content may contain opening brackets, and may begin with
  a closing bracket). The tokens in order, with every blank in its brackets, are the
  transcript, so all text outside the spans is literal text, in its place; and no
  string token contains a span. Text after the last closing bracket, so any text
  whose closing bracket is missing, is never part of a span: appending text without a
  closing bracket to a transcript leaves the blanks as they are and only extends the
  last string token (or adds one).
\<close>

theorem span_rule:
  "(\<forall>b \<in> set (snd (parseTranscript T)).
      b \<noteq> [] \<and> rbracket \<notin> set (tl b) \<and> (\<forall>c \<in> set b. \<not> isLineTerminator c)
      \<and> (\<exists>j. slice T j (j + length b + 2) = lbracket # b @ [rbracket]))
   \<and> editableTranscript (fst (parseTranscript T)) (snd (parseTranscript T)) = T
   \<and> (\<forall>s j. Lit s \<in> set (fst (parseTranscript T)) \<longrightarrow> span_here (drop j s) = None)
   \<and> (rbracket \<notin> set v \<and> v \<noteq> [] \<longrightarrow>
        (\<exists>ts w. parseTranscript (u @ v) = (ts @ [Lit (w @ v)], snd (parseTranscript u))
           \<and> fst (parseTranscript u) = (if w = [] then ts else ts @ [Lit w])))"
proof -
  have 1: "b \<noteq> [] \<and> rbracket \<notin> set (tl b) \<and> (\<forall>c \<in> set b. \<not> isLineTerminator c)
      \<and> (\<exists>j. slice T j (j + length b + 2) = lbracket # b @ [rbracket])"
    if "b \<in> set (snd (parseTranscript T))" for b
  proof -
    from parseTranscript_blanks [OF that] obtain j where j: "match_here (drop j T) = Some b"
      by blast
    from match_here_drop [OF j] have "slice T j (j + length b + 2) = lbracket # b @ [rbracket]"
      by (simp add: slice_def)
    then have "\<exists>j. slice T j (j + length b + 2) = lbracket # b @ [rbracket]" ..
    with match_here_Some [OF j] show ?thesis by simp
  qed
  have 2: "editableTranscript (fst (parseTranscript T)) (snd (parseTranscript T)) = T"
  proof -
    obtain i' toks' bl' where p: "parse_loop T (0, [], []) = (i', toks', bl')"
      by (cases "parse_loop T (0, [], [])") auto
    from parse_loop_editable [OF p]
    have e: "editableTranscript toks' bl' @ drop i' T = T"
      by (simp add: editableTranscript_def)
    show ?thesis
    proof (cases "i' < length T")
      case True
      with p e show ?thesis
        by (simp add: parseTranscript_def editableTranscript_append slice_from_def)
           (simp add: editableTranscript_def tokenText_def)
    next
      case False
      with p e show ?thesis
        by (simp add: parseTranscript_def)
    qed
  qed
  have 3: "\<forall>s j. Lit s \<in> set (fst (parseTranscript T)) \<longrightarrow> span_here (drop j s) = None"
    using parseTranscript_literals by blast
  have 4: "\<exists>ts w. parseTranscript (u @ v) = (ts @ [Lit (w @ v)], snd (parseTranscript u))
           \<and> fst (parseTranscript u) = (if w = [] then ts else ts @ [Lit w])"
    if "rbracket \<notin> set v \<and> v \<noteq> []"
    using that parseTranscript_append_text [of v u] by blast
  from 1 2 3 4 show ?thesis by blast
qed

theorem span_rule_witness:
  "snd (parseTranscript (js ''x[a[b]'')) = [js ''a[b'']
   \<and> rbracket \<notin> set (tl (js ''a[b''))
   \<and> fst (parseTranscript (js ''x[a[b]'')) = [Lit (js ''x''), Blank 0]
   \<and> span_here (js ''x'') = None
   \<and> rbracket \<notin> set (js '' and [y'')
   \<and> parseTranscript (js ''[x]'') = ([Blank 0], [js ''x''])
   \<and> parseTranscript (js ''[x] and [y'') = ([Blank 0, Lit (js '' and [y'')], [js ''x''])"
proof -
  have p: "parseTranscript (js ''x[a[b]'') = ([Lit (js ''x''), Blank 0], [js ''a[b''])"
    by code_simp
  have n: "rbracket \<notin> set (js '' and [y'')" "js '' and [y'' \<noteq> []"
    by (simp_all add: js_def rbracket_def)
  have q: "parseTranscript (js ''[x]'') = ([Blank 0], [js ''x''])"
    by code_simp
  from span_rule [of "js ''x[a[b]''"] p
  have 1: "rbracket \<notin> set (tl (js ''a[b''))" and "\<forall>j. span_here (drop j (js ''x'')) = None"
    by simp_all
  then have "span_here (drop 0 (js ''x'')) = None" by blast
  then have 2: "span_here (js ''x'') = None" by simp
  from span_rule [of _ "js '' and [y''" "js ''[x]''"] n obtain ts w
    where a: "parseTranscript (js ''[x]'' @ js '' and [y'')
                = (ts @ [Lit (w @ js '' and [y'')], snd (parseTranscript (js ''[x]'')))"
      and b: "fst (parseTranscript (js ''[x]'')) = (if w = [] then ts else ts @ [Lit w])"
    by blast
  from b q have "w = [] \<and> ts = [Blank 0]"
    by (cases "w = []") auto
  with a q have 3: "parseTranscript (js ''[x] and [y'') = ([Blank 0, Lit (js '' and [y'')], [js ''x''])"
    by (simp add: js_def)
  from p 1 2 n q 3 show ?thesis by simp
qed

text \<open>
  C10. The claim says that an empty pair of brackets is left in the output as literal
  text. The first code unit of the content may be a closing bracket, so when another
  closing bracket follows on the line the pair opens a longer span: \<open>[] and [x]\<close> is
  one blank with the answer \<open>] and [x\<close>.
\<close>

theorem blank_content_counterexample:
  "parseTranscript (js ''[] and [x]'') = ([Blank 0], [js ''] and [x''])"
  by code_simp

text \<open>
  C10, as the code has it. A blank is never empty and never contains a line
  terminator (the newline is one of them). In every transcript, a pair of brackets
  around bracket-free text with a line break is left as literal text: the pair and
  its content lie inside one string token. For an empty pair of brackets with no
  opening bracket between the last blank before it and the pair: when no closing
  bracket follows it before the next line terminator or the end, the pair is left as
  literal text, inside one string token; when a closing bracket follows it with no
  closing bracket and no line terminator in between, the pair opens the next blank,
  whose answer is the pair's closing bracket and the text up to that closing bracket.
\<close>

theorem blank_content_rule:
  "(\<forall>b \<in> set (snd (parseTranscript T)). b \<noteq> [] \<and> (\<forall>c \<in> set b. \<not> isLineTerminator c))
   \<and> (list_all not_bracket c \<and> (\<exists>x \<in> set c. isLineTerminator x) \<longrightarrow>
        (\<exists>ts1 s1 s2 ts2.
            fst (parseTranscript (pre @ lbracket # c @ rbracket # post))
              = ts1 @ Lit (s1 @ lbracket # c @ rbracket # s2) # ts2))
   \<and> (lbracket \<notin> set (trailing_text (fst (parseTranscript pre))) \<and> rbracket \<notin> set mid
        \<and> list_all isLineTerminator (take 1 rest) \<longrightarrow>
        (\<exists>ts1 s1 s2 ts2.
            fst (parseTranscript (pre @ lbracket # rbracket # mid @ rest))
              = ts1 @ Lit (s1 @ lbracket # rbracket # s2) # ts2))
   \<and> (lbracket \<notin> set (trailing_text (fst (parseTranscript pre))) \<and> rbracket \<notin> set mid
        \<and> (\<forall>x \<in> set mid. \<not> isLineTerminator x) \<longrightarrow>
        (\<exists>bs. snd (parseTranscript (pre @ lbracket # rbracket # mid @ rbracket # rest))
              = snd (parseTranscript pre) @ (rbracket # mid) # bs))"
proof -
  have 1: "b \<noteq> [] \<and> (\<forall>c \<in> set b. \<not> isLineTerminator c)"
    if "b \<in> set (snd (parseTranscript T))" for b
  proof -
    from parseTranscript_blanks [OF that] obtain j where j: "match_here (drop j T) = Some b"
      by blast
    from match_here_Some [OF j] show ?thesis by simp
  qed
  have 2: "\<exists>ts1 s1 s2 ts2.
            fst (parseTranscript (pre @ lbracket # c @ rbracket # post))
              = ts1 @ Lit (s1 @ lbracket # c @ rbracket # s2) # ts2"
    if "list_all not_bracket c \<and> (\<exists>x \<in> set c. isLineTerminator x)"
    using that line_break_pair_literal [of c pre post] by blast
  have 3: "\<exists>ts1 s1 s2 ts2.
            fst (parseTranscript (pre @ lbracket # rbracket # mid @ rest))
              = ts1 @ Lit (s1 @ lbracket # rbracket # s2) # ts2"
    if "lbracket \<notin> set (trailing_text (fst (parseTranscript pre))) \<and> rbracket \<notin> set mid
        \<and> list_all isLineTerminator (take 1 rest)"
    using that empty_pair_literal [of pre mid rest] by blast
  have 4: "\<exists>bs. snd (parseTranscript (pre @ lbracket # rbracket # mid @ rbracket # rest))
              = snd (parseTranscript pre) @ (rbracket # mid) # bs"
    if "lbracket \<notin> set (trailing_text (fst (parseTranscript pre))) \<and> rbracket \<notin> set mid
        \<and> (\<forall>x \<in> set mid. \<not> isLineTerminator x)"
    using that empty_pair_blank [of pre mid rest] by blast
  from 1 2 3 4 show ?thesis by blast
qed

theorem blank_content_rule_witness:
  "snd (parseTranscript (js ''[a] [] [b]'')) = [js ''a'', js ''] [b'']
   \<and> \<not> isLineTerminator (of_char CHR ''a'')
   \<and> list_all not_bracket [0x61, 0x0A, 0x62] \<and> isLineTerminator 0x0A
   \<and> fst (parseTranscript (js ''[x] ['' @ [0x61, 0x0A, 0x62] @ js ''] y''))
       = [Blank 0, Lit (js '' ['' @ [0x61, 0x0A, 0x62] @ js ''] y'')]
   \<and> trailing_text (fst (parseTranscript (js ''[x] ''))) = js '' ''
   \<and> fst (parseTranscript (js ''[x] [] y'')) = [Blank 0, Lit (js '' [] y'')]
   \<and> snd (parseTranscript (js ''[x] [] and [y] z'')) = [js ''x'', js ''] and [y'']"
proof -
  have p: "snd (parseTranscript (js ''[a] [] [b]'')) = [js ''a'', js ''] [b'']"
    by code_simp
  have "js ''a'' \<in> set (snd (parseTranscript (js ''[a] [] [b]'')))"
    by (simp add: p)
  with blank_content_rule [THEN conjunct1, of "js ''[a] [] [b]''"]
  have "\<forall>c \<in> set (js ''a''). \<not> isLineTerminator c"
    by blast
  then have 1: "\<not> isLineTerminator (of_char CHR ''a'')"
    by (simp add: js_def)
  have c: "list_all not_bracket [0x61, 0x0A, 0x62]" "isLineTerminator 0x0A"
    by (simp_all add: not_bracket_def lbracket_def rbracket_def isLineTerminator_def)
  from c(2) have cx: "\<exists>x \<in> set [0x61, 0x0A, 0x62]. isLineTerminator x"
    by simp
  have t: "trailing_text (fst (parseTranscript (js ''[x] ''))) = js '' ''"
    by code_simp
  have h1: "lbracket \<notin> set (trailing_text (fst (parseTranscript (js ''[x] ''))))"
    by (simp add: t) (simp add: js_def lbracket_def)
  have h2: "rbracket \<notin> set (js '' y'')" "rbracket \<notin> set (js '' and [y'')"
    by (simp_all add: js_def rbracket_def)
  have h3: "list_all isLineTerminator (take 1 [])"
    by simp
  have h4: "\<forall>x \<in> set (js '' and [y''). \<not> isLineTerminator x"
    by (simp add: js_def isLineTerminator_def)
  note r = blank_content_rule [where c = "[0x61, 0x0A, 0x62]" and pre = "js ''[x] ''"
      and post = "js '' y''" and mid = "js '' and [y''" and rest = "js '' z''"]
  note x2 = r [THEN conjunct2, THEN conjunct1, THEN mp, OF conjI [OF c(1) cx]]
  note x4 = r [THEN conjunct2, THEN conjunct2, THEN conjunct2, THEN mp,
      OF conjI [OF h1 conjI [OF h2(2) h4]]]
  note x3 = blank_content_rule [where pre = "js ''[x] ''" and mid = "js '' y''" and rest = "[]",
      THEN conjunct2, THEN conjunct2, THEN conjunct1, THEN mp,
      OF conjI [OF h1 conjI [OF h2(1) h3]]]
  have 2: "fst (parseTranscript (js ''[x] ['' @ [0x61, 0x0A, 0x62] @ js ''] y''))
       = [Blank 0, Lit (js '' ['' @ [0x61, 0x0A, 0x62] @ js ''] y'')]"
    by code_simp
  have 3: "fst (parseTranscript (js ''[x] [] y'')) = [Blank 0, Lit (js '' [] y'')]"
    by code_simp
  have 4: "snd (parseTranscript (js ''[x] [] and [y] z'')) = [js ''x'', js ''] and [y'']"
    by code_simp
  from x2 x3 x4 p 1 c t 2 3 4 show ?thesis by simp
qed

text \<open>
  C5. For a blank index \<open>i\<close>, \<open>isCorrect\<close> holds exactly when the entry at \<open>i\<close> is
  present, is not empty and equals the expected answer after both are trimmed and
  lowercased (for every case mapping \<open>lc\<close>); a missing or empty entry is never correct,
  at any index. The check grades every blank without an exception and counts the
  correct ones.
\<close>

theorem isCorrect_grading:
  "(i < length (blanks q) \<longrightarrow> isCorrect lc q s i = Inr (graded lc q s i))
   \<and> (answers s i = None \<or> answers s i = Some [] \<longrightarrow> isCorrect lc q s i = Inr False)
   \<and> handleCheck lc q s =
       Inr (s\<lparr>score := length (filter (graded lc q s) [0..<length (blanks q)]), checked := True\<rparr>)"
proof -
  have "isCorrect lc q s i = Inr False" if "answers s i = None \<or> answers s i = Some []"
    using that by (auto simp: isCorrect_def)
  with isCorrect_graded [of i q lc s] handleCheck_result [of lc q s] show ?thesis
    by blast
qed

theorem isCorrect_grading_witness:
  "(0::nat) < length (blanks paris)
   \<and> isCorrect lowerASCII paris paris_typed 0 = Inr True
   \<and> answers paris_partial 0 = Some []
   \<and> isCorrect lowerASCII paris paris_partial 0 = Inr False
   \<and> answers paris_partial 1 = None
   \<and> isCorrect lowerASCII paris paris_partial 1 = Inr False
   \<and> handleCheck lowerASCII paris paris_typed = Inr (paris_typed\<lparr>score := 2, checked := True\<rparr>)"
proof -
  have h: "(0::nat) < length (blanks paris)"
    by (simp add: paris_def)
  have g: "graded lowerASCII paris paris_typed 0"
    by code_simp
  have n: "length (filter (graded lowerASCII paris paris_typed) [0..<length (blanks paris)]) = 2"
    by code_simp
  have e: "answers paris_partial 0 = Some []" "answers paris_partial 1 = None"
    by (simp_all add: paris_partial_def)
  from isCorrect_grading [of 0 paris lowerASCII paris_typed] h g n
  have 1: "isCorrect lowerASCII paris paris_typed 0 = Inr True"
    and 4: "handleCheck lowerASCII paris paris_typed = Inr (paris_typed\<lparr>score := 2, checked := True\<rparr>)"
    by simp_all
  from isCorrect_grading [of 0 paris lowerASCII paris_partial] e
  have 2: "isCorrect lowerASCII paris paris_partial 0 = Inr False"
    by simp
  from isCorrect_grading [of 1 paris lowerASCII paris_partial] e
  have 3: "isCorrect lowerASCII paris paris_partial 1 = Inr False"
    by simp
  from h 1 e 2 3 4 show ?thesis by simp
qed

text \<open>
  C1. The claim says that after "Show answers" the score equals the number of blanks.
  \<open>handleShowAnswers\<close> sets \<open>answers\<close> and \<open>checked\<close> and does not touch \<open>score\<close>: on the
  fresh sample question the score stays 0 of 2.
\<close>

theorem handleShowAnswers_counterexample:
  "score (handleShowAnswers (SAMPLE_QUESTIONS ! 0) (startQuestion (SAMPLE_QUESTIONS ! 0))) = 0
   \<and> length (blanks (SAMPLE_QUESTIONS ! 0)) = 2"
  by (simp add: handleShowAnswers_def startQuestion_def SAMPLE_QUESTIONS_def)

text \<open>
  C1, as the code has it. After "Show answers" the entry of every blank index is the
  expected answer, verbatim, there is no other entry, \<open>checked\<close> is true, and the
  score and the timer are what they were before.
\<close>

theorem handleShowAnswers_effect:
  "(\<forall>i < length (blanks q). answers (handleShowAnswers q s) i = Some (blanks q ! i))
   \<and> (\<forall>i \<ge> length (blanks q). answers (handleShowAnswers q s) i = None)
   \<and> checked (handleShowAnswers q s)
   \<and> score (handleShowAnswers q s) = score s
   \<and> timeLeft (handleShowAnswers q s) = timeLeft s"
proof -
  have a: "answers (handleShowAnswers q s) i
             = (if i < length (blanks q) then Some (blanks q ! i) else None)" for i
    by (simp add: handleShowAnswers_def filled_lookup)
  have r: "checked (handleShowAnswers q s)" "score (handleShowAnswers q s) = score s"
    "timeLeft (handleShowAnswers q s) = timeLeft s"
    by (simp_all add: handleShowAnswers_def)
  from a r show ?thesis by simp
qed

theorem handleShowAnswers_effect_witness:
  "(1::nat) < length (blanks paris)
   \<and> answers (handleShowAnswers paris paris_typed) 1 = Some (js ''5'')
   \<and> (2::nat) \<ge> length (blanks paris)
   \<and> answers (handleShowAnswers paris paris_typed) 2 = None
   \<and> checked (handleShowAnswers paris paris_typed)
   \<and> score (handleShowAnswers paris paris_typed) = 0"
proof -
  have h: "(1::nat) < length (blanks paris)" "(2::nat) \<ge> length (blanks paris)"
    "blanks paris ! 1 = js ''5''" "score paris_typed = 0"
    by (simp_all add: paris_def paris_typed_def)
  from handleShowAnswers_effect [of paris paris_typed] h show ?thesis
    by simp
qed

text \<open>
  C6. In a session that is already checked, "Check" does nothing: the button is
  disabled and the timer effect is guarded by \<open>!checked\<close>, so both leave the whole
  session as it is. From every session, one "Check" gives a checked session, on which
  a second "Check" and the expiry of the timer change nothing.
\<close>

theorem check_guard:
  "(checked s \<longrightarrow> checkButton_onClick lc q s = Inr s \<and> timeLeft_effect lc q s = Inr s)
   \<and> (\<exists>s'. checkButton_onClick lc q s = Inr s' \<and> checked s'
          \<and> checkButton_onClick lc q s' = Inr s' \<and> timeLeft_effect lc q s' = Inr s')"
proof -
  have 1: "checkButton_onClick lc q s = Inr s \<and> timeLeft_effect lc q s = Inr s" if "checked s" for s
    using that by (simp add: checkButton_onClick_def timeLeft_effect_def)
  obtain s' where s': "checkButton_onClick lc q s = Inr s'" "checked s'"
    by (cases "checked s") (simp_all add: checkButton_onClick_def handleCheck_result)
  with 1 [of s'] 1 [of s] show ?thesis by blast
qed

theorem check_guard_witness:
  "checked revealed
   \<and> checkButton_onClick lowerASCII paris revealed = Inr revealed
   \<and> timeLeft_effect lowerASCII paris revealed = Inr revealed"
proof -
  have h: "checked revealed"
    by (simp add: revealed_def handleShowAnswers_def)
  from check_guard [of revealed lowerASCII paris] h show ?thesis
    by simp
qed

text \<open>
  C2. At startup an absent key, and a stored empty string, give the sample collection,
  which has one question. A stored string that is not empty goes to \<open>JSON.parse\<close>, and
  the initial collection is whatever that call gives: the stored collection when the
  string parses, and the thrown \<open>SyntaxError\<close> when it does not. No handler surrounds the
  call, so content that fails to parse does not fall back to the sample collection.
\<close>

theorem initialQuestions_cases:
  "initialQuestions JSON_parse None = Inr SAMPLE_QUESTIONS
   \<and> initialQuestions JSON_parse (Some []) = Inr SAMPLE_QUESTIONS
   \<and> initialQuestions JSON_parse (Some (c # cs)) = JSON_parse (c # cs)
   \<and> length SAMPLE_QUESTIONS = 1"
  by (simp add: initialQuestions_def SAMPLE_QUESTIONS_def)

text \<open>
  C8. The claim says that fields left unspecified in the draft are taken from the
  existing record. Only the title is: \<open>audioUrl\<close> and \<open>timeLimitSec\<close> are overwritten by
  the draft's values, \<open>undefined\<close> included. Updating the sample question with a draft
  without audio URL leaves it without audio URL.
\<close>

theorem updateQuestion_counterexample:
  "(case updateQuestion SAMPLE_QUESTIONS (js ''q1'') (Some (js ''Parks'')) (Some (js ''City [parks]''))
           None None of
      Inl e \<Rightarrow> []
    | Inr qs \<Rightarrow> map audioUrl qs) = [None]
   \<and> map audioUrl SAMPLE_QUESTIONS
       = [Some (js ''https://www.soundhelix.com/examples/mp3/SoundHelix-Song-1.mp3'')]"
  by (simp add: updateQuestion_def parseDraft_def SAMPLE_QUESTIONS_def split: prod.splits)

text \<open>
  C8, as the code has it. With a transcript string, \<open>updateQuestion\<close> returns a
  collection of the same length with the same ids at the same positions; a question
  with another id is unchanged; a question with the given id keeps its id, keeps its
  title when the draft's title is \<open>undefined\<close> or empty and takes the draft's title
  otherwise, takes the draft's \<open>audioUrl\<close> and \<open>timeLimitSec\<close> as they are, and gets the
  tokens and blanks parsed from the draft's transcript.
\<close>

theorem updateQuestion_effect:
  "\<exists>qs'. updateQuestion qs ident t (Some T) a l = Inr qs'
      \<and> length qs' = length qs
      \<and> map id_q qs' = map id_q qs
      \<and> (\<forall>k < length qs.
            (id_q (qs ! k) \<noteq> ident \<longrightarrow> qs' ! k = qs ! k)
          \<and> (id_q (qs ! k) = ident \<longrightarrow>
               qs' ! k = \<lparr>id_q = ident,
                           title = (case t of None \<Rightarrow> title (qs ! k)
                                    | Some s \<Rightarrow> if s = [] then title (qs ! k) else s),
                           audioUrl = a,
                           timeLimitSec = l,
                           tokens = fst (parseTranscript T),
                           blanks = snd (parseTranscript T)\<rparr>))"
proof -
  obtain toks bl where p: "parseTranscript T = (toks, bl)"
    by (cases "parseTranscript T") auto
  define f :: "question \<Rightarrow> question" where
    "f = (\<lambda>q. if id_q q = ident
               then q\<lparr>title := or_else t (title q), audioUrl := a, timeLimitSec := l,
                      tokens := toks, blanks := bl\<rparr>
               else q)"
  have u: "updateQuestion qs ident t (Some T) a l = Inr (map f qs)"
    by (simp add: updateQuestion_def parseDraft_def p f_def)
  have i: "id_q (f q) = id_q q" for q
    by (simp add: f_def)
  have n: "f q = q" if "id_q q \<noteq> ident" for q
    using that by (simp add: f_def)
  have y: "f q = \<lparr>id_q = ident,
                   title = (case t of None \<Rightarrow> title q | Some s \<Rightarrow> if s = [] then title q else s),
                   audioUrl = a, timeLimitSec = l, tokens = toks, blanks = bl\<rparr>"
    if "id_q q = ident" for q
    using that by (cases q) (auto simp: f_def or_else_def split: option.splits)
  from u i n y p show ?thesis by simp
qed

theorem updateQuestion_effect_witness:
  "(1::nat) < length two_questions
   \<and> id_q (two_questions ! 0) \<noteq> js ''q2''
   \<and> id_q (two_questions ! 1) = js ''q2''
   \<and> updateQuestion two_questions (js ''q2'') None (Some (js ''[Rome] has 7 hills''))
       (Some (js ''rome.mp3'')) (Some 60)
     = Inr (SAMPLE_QUESTIONS @ [rome])"
proof -
  have h: "(1::nat) < length two_questions" "id_q (two_questions ! 0) \<noteq> js ''q2''"
    "id_q (two_questions ! 1) = js ''q2''"
    by (simp_all add: two_questions_def SAMPLE_QUESTIONS_def paris_def js_def)
  have r: "updateQuestion two_questions (js ''q2'') None (Some (js ''[Rome] has 7 hills''))
       (Some (js ''rome.mp3'')) (Some 60) = Inr (SAMPLE_QUESTIONS @ [rome])"
    by code_simp
  from updateQuestion_effect [of two_questions "js ''q2''" None "js ''[Rome] has 7 hills''"
       "Some (js ''rome.mp3'')" "Some 60"] h r
  show ?thesis by simp
qed

text \<open>
  C9. The claim says that the id of a new question never collides with an id of the
  collection. The id is \<open>"q" + Date.now()\<close> and nothing compares it with the ids in the
  collection: two questions added at the same clock reading get the same id.
\<close>

theorem addQuestion_counterexample:
  "(case addQuestion 1700000000000 SAMPLE_QUESTIONS None (Some (js ''[Rome] has 7 hills'')) None None of
      Inl e \<Rightarrow> []
    | Inr qs \<Rightarrow>
        (case addQuestion 1700000000000 qs None (Some (js ''[Oslo] has none'')) None None of
           Inl e \<Rightarrow> []
         | Inr qs' \<Rightarrow> map id_q qs'))
     = [js ''q1'', js ''q1700000000000'', js ''q1700000000000'']"
  by (simp add: addQuestion_def parseDraft_def SAMPLE_QUESTIONS_def numberToString.simps digit_def
        js_def split: prod.splits)

text \<open>
  C9, as the code has it. With a transcript string, \<open>addQuestion\<close> appends one question
  to the end of the collection and leaves the others as they are; its id is \<open>q\<close>
  followed by the decimal digits of the clock reading. The ids stay distinct when they
  were distinct and none of them is this id, which is so in particular when every id
  of the collection is \<open>q\<close> followed by the digits of another clock reading.
\<close>

theorem addQuestion_effect:
  "\<exists>nq. addQuestion now qs t (Some T) a l = Inr (qs @ [nq])
      \<and> nq = \<lparr>id_q = js ''q'' @ numberToString now,
                title = (case t of None \<Rightarrow> js ''Custom question''
                         | Some s \<Rightarrow> if s = [] then js ''Custom question'' else s),
                audioUrl = a,
                timeLimitSec = l,
                tokens = fst (parseTranscript T),
                blanks = snd (parseTranscript T)\<rparr>
      \<and> (distinct (map id_q qs) \<and> (\<forall>q \<in> set qs. id_q q \<noteq> js ''q'' @ numberToString now)
           \<longrightarrow> distinct (map id_q (qs @ [nq])))
      \<and> ((\<forall>q \<in> set qs. \<exists>n. n \<noteq> now \<and> id_q q = js ''q'' @ numberToString n)
           \<longrightarrow> (\<forall>q \<in> set qs. id_q q \<noteq> id_q nq))"
proof -
  obtain toks bl where p: "parseTranscript T = (toks, bl)"
    by (cases "parseTranscript T") auto
  define nq where
    "nq = \<lparr>id_q = js ''q'' @ numberToString now, title = or_else t (js ''Custom question''),
            audioUrl = a, timeLimitSec = l, tokens = toks, blanks = bl\<rparr>"
  have u: "addQuestion now qs t (Some T) a l = Inr (qs @ [nq])"
    by (simp add: addQuestion_def parseDraft_def p nq_def)
  have e: "nq = \<lparr>id_q = js ''q'' @ numberToString now,
                title = (case t of None \<Rightarrow> js ''Custom question''
                         | Some s \<Rightarrow> if s = [] then js ''Custom question'' else s),
                audioUrl = a, timeLimitSec = l,
                tokens = fst (parseTranscript T), blanks = snd (parseTranscript T)\<rparr>"
    by (simp add: nq_def or_else_def p split: option.splits)
  have i: "id_q nq = js ''q'' @ numberToString now"
    by (simp add: nq_def)
  have d: "distinct (map id_q (qs @ [nq]))"
    if "distinct (map id_q qs) \<and> (\<forall>q \<in> set qs. id_q q \<noteq> js ''q'' @ numberToString now)"
    using that i by auto
  have f: "\<forall>q \<in> set qs. id_q q \<noteq> id_q nq"
    if a: "\<forall>q \<in> set qs. \<exists>n. n \<noteq> now \<and> id_q q = js ''q'' @ numberToString n"
  proof
    fix q assume "q \<in> set qs"
    with a obtain n where n: "n \<noteq> now" "id_q q = js ''q'' @ numberToString n" by blast
    show "id_q q \<noteq> id_q nq"
    proof
      assume "id_q q = id_q nq"
      with n(2) i have "numberToString n = numberToString now" by simp
      with numberToString_inj n(1) show False by blast
    qed
  qed
  from u e d f show ?thesis by blast
qed

theorem addQuestion_effect_witness:
  "distinct (map id_q SAMPLE_QUESTIONS)
   \<and> id_q (SAMPLE_QUESTIONS ! 0) = js ''q'' @ numberToString 1
   \<and> addQuestion 1700000000000 SAMPLE_QUESTIONS (Some []) (Some (js ''[Rome] has 7 hills''))
        (Some (js ''rome.mp3'')) (Some 60)
      = Inr (SAMPLE_QUESTIONS @ [rome_added])
   \<and> distinct (map id_q (SAMPLE_QUESTIONS @ [rome_added]))"
proof -
  have n1: "numberToString 1 = js ''1''"
    by (subst numberToString.simps) (simp add: digit_def js_def)
  have n2: "numberToString 1700000000000 = js ''1700000000000''"
    by (simp add: numberToString.simps digit_def js_def)
  have h1: "distinct (map id_q SAMPLE_QUESTIONS)"
    and h2: "id_q (SAMPLE_QUESTIONS ! 0) = js ''q'' @ numberToString 1"
    and h3: "\<forall>q \<in> set SAMPLE_QUESTIONS. id_q q \<noteq> js ''q'' @ numberToString 1700000000000"
    by (simp_all only: n1 n2) (simp_all add: SAMPLE_QUESTIONS_def js_def)
  have h4: "\<forall>q \<in> set SAMPLE_QUESTIONS. \<exists>n. n \<noteq> 1700000000000 \<and> id_q q = js ''q'' @ numberToString n"
  proof
    fix q assume "q \<in> set SAMPLE_QUESTIONS"
    then have "q = SAMPLE_QUESTIONS ! 0" by (simp add: SAMPLE_QUESTIONS_def)
    with h2 have "(1::nat) \<noteq> 1700000000000 \<and> id_q q = js ''q'' @ numberToString 1" by simp
    then show "\<exists>n. n \<noteq> 1700000000000 \<and> id_q q = js ''q'' @ numberToString n" ..
  qed
  have p: "parseTranscript (js ''[Rome] has 7 hills'') = ([Blank 0, Lit (js '' has 7 hills'')], [js ''Rome''])"
    by code_simp
  from addQuestion_effect [of 1700000000000 SAMPLE_QUESTIONS "Some []" "js ''[Rome] has 7 hills''"
      "Some (js ''rome.mp3'')" "Some 60"] h1 h3 h4 p n2
  have "addQuestion 1700000000000 SAMPLE_QUESTIONS (Some []) (Some (js ''[Rome] has 7 hills''))
        (Some (js ''rome.mp3'')) (Some 60) = Inr (SAMPLE_QUESTIONS @ [rome_added])
     \<and> distinct (map id_q (SAMPLE_QUESTIONS @ [rome_added]))"
    by (auto simp: rome_added_def) (simp_all add: js_def)
  with h1 h2 show ?thesis by simp
qed

end
